theory Spec2Isabelle
  imports Main "HOL-Library.Word"
begin

unbundle bit_operations_syntax

section \<open>JavaScript number primitives used by the library\<close>

text \<open>
  The library computes on JavaScript numbers that hold integers. They are modelled as
  \<^typ>\<open>int\<close>; the 32-bit coercions that the bitwise operators apply to their operands
  (ToInt32, ToUint32) are written out. Sums and differences are the exact integers, as they
  are in a double below \<open>2^53\<close>.
\<close>

definition toInt32 :: "int \<Rightarrow> int" where
  "toInt32 v = signed_take_bit 31 v"

definition toUint32 :: "int \<Rightarrow> int" where
  "toUint32 v = take_bit 32 v"

text \<open>\<open>a | b\<close>, \<open>a & b\<close>, \<open>a ^ b\<close>, \<open>~a\<close>\<close>

definition js_or :: "int \<Rightarrow> int \<Rightarrow> int" where
  "js_or a b = toInt32 a OR toInt32 b"

definition js_and :: "int \<Rightarrow> int \<Rightarrow> int" where
  "js_and a b = toInt32 a AND toInt32 b"

definition js_xor :: "int \<Rightarrow> int \<Rightarrow> int" where
  "js_xor a b = toInt32 a XOR toInt32 b"

definition js_not :: "int \<Rightarrow> int" where
  "js_not a = NOT (toInt32 a)"

text \<open>\<open>a << k\<close>, \<open>a >> k\<close>, \<open>a >>> k\<close>: the shift count is taken modulo 32.\<close>

definition js_shl :: "int \<Rightarrow> int \<Rightarrow> int" where
  "js_shl a k = toInt32 (push_bit (nat (k mod 32)) (toInt32 a))"

definition js_sar :: "int \<Rightarrow> int \<Rightarrow> int" where
  "js_sar a k = drop_bit (nat (k mod 32)) (toInt32 a)"

definition js_shr :: "int \<Rightarrow> int \<Rightarrow> int" where
  "js_shr a k = drop_bit (nat (k mod 32)) (toUint32 a)"

text \<open>\<open>Math.imul\<close> and \<open>Math.clz32\<close>\<close>

definition imul :: "int \<Rightarrow> int \<Rightarrow> int" where
  "imul a b = toInt32 (toInt32 a * toInt32 b)"

fun bit_length :: "nat \<Rightarrow> nat" where
  "bit_length n = (if n = 0 then 0 else Suc (bit_length (n div 2)))"

declare bit_length.simps [simp del]

definition clz32 :: "int \<Rightarrow> int" where
  "clz32 v = 32 - int (bit_length (nat (toUint32 v)))"

definition clz30 :: "int \<Rightarrow> int" where
  "clz30 x = clz32 x - 2"

definition clz15 :: "int \<Rightarrow> int" where
  "clz15 v = clz30 v - 15"

text \<open>
  \<open>(a / b) | 0\<close> and \<open>(a % b) | 0\<close> on integers: the double quotient of two
  integers below \<open>2^53\<close> truncates to the integer quotient rounded towards zero, and the
  remainder takes the sign of the dividend; a zero divisor gives \<open>Infinity\<close> and
  \<open>NaN\<close>, which \<open>| 0\<close> turns into 0.
\<close>

definition js_div :: "int \<Rightarrow> int \<Rightarrow> int" where
  "js_div a b = (if b = 0 then 0 else toInt32 (sgn a * sgn b * (\<bar>a\<bar> div \<bar>b\<bar>)))"

definition js_mod :: "int \<Rightarrow> int \<Rightarrow> int" where
  "js_mod a b = (if b = 0 then 0 else toInt32 (sgn a * (\<bar>a\<bar> mod \<bar>b\<bar>)))"

section \<open>The BigInt value\<close>

text \<open>
  Exceptions are values: each constructor carries the message of the \<open>throw\<close>.
  \<open>NullResult\<close> stands for a function handing back \<open>null\<close> where its type
  promises a value.
\<close>

datatype error = RangeError string | SyntaxError | TypeError string | Error string | NullResult

record JSBI =
  sign :: bool
  digits :: "int list"

definition kMaxLength :: int where
  "kMaxLength = 33554432"

definition kMaxLengthBits :: int where
  "kMaxLengthBits = 1073741824"

text \<open>
  \<open>new JSBI(length, sign)\<close> raises RangeError when \<open>length > kMaxLength\<close>. Every
  function of the library writes each slot of a fresh array before it reads it, so the
  model builds the digit list directly and keeps the length check.
\<close>

definition allocatable :: "nat \<Rightarrow> bool" where
  "allocatable len = (int len \<le> kMaxLength)"

text \<open>
  Digit accessors. \<open>digitB\<close> is a digit read whose value only flows into bitwise
  operators, where an out-of-range read (\<open>undefined\<close>) is coerced to 0.
  \<open>setDigit\<close> stores \<open>digit | 0\<close>; a store past the end extends the array.
\<close>

definition digitB :: "int list \<Rightarrow> nat \<Rightarrow> int" where
  "digitB xs i = (if i < length xs then xs ! i else 0)"

definition unsignedDigit :: "int list \<Rightarrow> nat \<Rightarrow> int" where
  "unsignedDigit xs i = toUint32 (digitB xs i)"

definition setDigit :: "int list \<Rightarrow> nat \<Rightarrow> int \<Rightarrow> int list" where
  "setDigit xs i d =
     (if i < length xs then xs[i := toInt32 d]
      else xs @ replicate (i - length xs) 0 @ [toInt32 d])"

definition halfDigitLength :: "int list \<Rightarrow> int" where
  "halfDigitLength xs =
     (let len = int (length xs) in
      if toUint32 (if xs = [] then 0 else last xs) \<le> 0x7FFF then len * 2 - 1 else len * 2)"

definition halfDigit :: "int list \<Rightarrow> nat \<Rightarrow> int" where
  "halfDigit xs i = js_and (js_shr (digitB xs (i div 2)) (int (i mod 2) * 15)) 0x7FFF"

definition setHalfDigit :: "int list \<Rightarrow> nat \<Rightarrow> int \<Rightarrow> int list" where
  "setHalfDigit xs i v =
     (let digitIndex = i div 2;
          previous = digitB xs digitIndex;
          updated = (if odd i then js_or (js_and previous 0x7FFF) (js_shl v 15)
                     else js_or (js_and previous 0x3FFF8000) (js_and v 0x7FFF))
      in setDigit xs digitIndex updated)"

definition zero :: JSBI where
  "zero = \<lparr>sign = False, digits = []\<rparr>"

definition oneDigit :: "int \<Rightarrow> bool \<Rightarrow> JSBI" where
  "oneDigit v s = \<lparr>sign = s, digits = [toInt32 v]\<rparr>"

text \<open>\<open>__trim\<close>: pop trailing zero digits; an empty value gets sign false.\<close>

function trim_loop :: "int list \<Rightarrow> int list" where
  "trim_loop xs = (if xs \<noteq> [] \<and> last xs = 0 then trim_loop (butlast xs) else xs)"
  by pat_completeness auto
termination
  by (relation "measure length") auto

declare trim_loop.simps [simp del]

definition trim :: "JSBI \<Rightarrow> JSBI" where
  "trim x = (let ds = trim_loop (digits x) in
             \<lparr>sign = (if ds = [] then False else sign x), digits = ds\<rparr>)"

definition unaryMinus :: "JSBI \<Rightarrow> JSBI" where
  "unaryMinus x = (if digits x = [] then x else \<lparr>sign = \<not> sign x, digits = digits x\<rparr>)"

definition clzmsd :: "int list \<Rightarrow> int" where
  "clzmsd xs = clz30 (if xs = [] then 0 else last xs)"

section \<open>Additive core\<close>

text \<open>\<open>__absoluteCompare\<close>: the loop walks down from the top digit.\<close>

primrec compare_loop :: "int list \<Rightarrow> int list \<Rightarrow> nat \<Rightarrow> int" where
  "compare_loop xs ys 0 = 0"
| "compare_loop xs ys (Suc i) =
     (if xs ! i = ys ! i then compare_loop xs ys i
      else if toUint32 (xs ! i) > toUint32 (ys ! i) then 1 else -1)"

definition absoluteCompare :: "JSBI \<Rightarrow> JSBI \<Rightarrow> int" where
  "absoluteCompare x y =
     (let diff = int (length (digits x)) - int (length (digits y)) in
      if diff \<noteq> 0 then diff else compare_loop (digits x) (digits y) (length (digits x)))"

text \<open>
  The two carry loops of \<open>__absoluteAdd\<close>: first over the digits of \<open>y\<close>, then over
  the remaining digits of \<open>x\<close>. The result is the list of stored digits and the final carry.
\<close>

fun add_loop :: "int list \<Rightarrow> int list \<Rightarrow> int \<Rightarrow> int list \<times> int" where
  "add_loop (x # xs) (y # ys) carry =
     (let r = x + y + carry;
          (ds, c) = add_loop xs ys (js_shr r 30)
      in (js_and r 0x3FFFFFFF # ds, c))"
| "add_loop (x # xs) [] carry =
     (let r = x + carry;
          (ds, c) = add_loop xs [] (js_shr r 30)
      in (js_and r 0x3FFFFFFF # ds, c))"
| "add_loop [] ys carry = ([], carry)"

definition absoluteAdd_ordered :: "JSBI \<Rightarrow> JSBI \<Rightarrow> bool \<Rightarrow> error + JSBI" where
  "absoluteAdd_ordered x y resultSign =
     (if digits x = [] then Inr x
      else if digits y = [] then Inr (if sign x = resultSign then x else unaryMinus x)
      else
        let resultLength =
              (if clzmsd (digits x) = 0 \<or>
                  (length (digits y) = length (digits x) \<and> clzmsd (digits y) = 0)
               then length (digits x) + 1 else length (digits x))
        in if \<not> allocatable resultLength then Inl (RangeError ''Maximum BigInt size exceeded'')
           else
             let (ds, carry) = add_loop (digits x) (digits y) 0;
                 ds' = (if length (digits x) < resultLength then ds @ [toInt32 carry] else ds)
             in Inr (trim \<lparr>sign = resultSign, digits = ds'\<rparr>))"

definition absoluteAdd :: "JSBI \<Rightarrow> JSBI \<Rightarrow> bool \<Rightarrow> error + JSBI" where
  "absoluteAdd x y resultSign =
     (if length (digits x) < length (digits y) then absoluteAdd_ordered y x resultSign
      else absoluteAdd_ordered x y resultSign)"

text \<open>The two borrow loops of \<open>__absoluteSub\<close>.\<close>

fun sub_loop :: "int list \<Rightarrow> int list \<Rightarrow> int \<Rightarrow> int list" where
  "sub_loop (x # xs) (y # ys) borrow =
     (let r = x - y - borrow in
      js_and r 0x3FFFFFFF # sub_loop xs ys (js_and (js_shr r 30) 1))"
| "sub_loop (x # xs) [] borrow =
     (let r = x - borrow in
      js_and r 0x3FFFFFFF # sub_loop xs [] (js_and (js_shr r 30) 1))"
| "sub_loop [] ys borrow = []"

definition absoluteSub :: "JSBI \<Rightarrow> JSBI \<Rightarrow> bool \<Rightarrow> error + JSBI" where
  "absoluteSub x y resultSign =
     (if digits x = [] then Inr x
      else if digits y = [] then Inr (if sign x = resultSign then x else unaryMinus x)
      else if \<not> allocatable (length (digits x)) then Inl (RangeError ''Maximum BigInt size exceeded'')
      else Inr (trim \<lparr>sign = resultSign, digits = sub_loop (digits x) (digits y) 0\<rparr>))"

definition add :: "JSBI \<Rightarrow> JSBI \<Rightarrow> error + JSBI" where
  "add x y =
     (let s = sign x in
      if s = sign y then absoluteAdd x y s
      else if absoluteCompare x y \<ge> 0 then absoluteSub x y s
      else absoluteSub y x (\<not> s))"

definition subtract :: "JSBI \<Rightarrow> JSBI \<Rightarrow> error + JSBI" where
  "subtract x y =
     (let s = sign x in
      if s \<noteq> sign y then absoluteAdd x y s
      else if absoluteCompare x y \<ge> 0 then absoluteSub x y s
      else absoluteSub y x (\<not> s))"

section \<open>Multiplicative core\<close>

text \<open>
  \<open>__multiplyAccumulate\<close>. The main loop runs over the digits of the multiplicand; the
  state is the accumulator, its index, \<open>carry\<close> and \<open>high\<close>. An accumulator read past
  the end is \<open>undefined\<close>: the sum is \<open>NaN\<close>, which \<open>>>> 30\<close> and \<open>& 0x3FFFFFFF\<close>
  turn into 0.
\<close>

fun mulacc_loop ::
  "int list \<Rightarrow> int \<Rightarrow> int \<Rightarrow> int list \<Rightarrow> nat \<Rightarrow> int \<Rightarrow> int \<Rightarrow> int list \<times> nat \<times> int \<times> int" where
  "mulacc_loop [] m2Low m2High acc idx carry high = (acc, idx, carry, high)"
| "mulacc_loop (m1 # ms) m2Low m2High acc idx carry high =
     (let m1Low = js_and m1 0x7FFF;
          m1High = js_shr m1 15;
          rLow = imul m1Low m2Low;
          rMid1 = imul m1Low m2High;
          rMid2 = imul m1High m2Low;
          rHigh = imul m1High m2High;
          (carry1, acc1) =
             (if idx < length acc
              then (let a = acc ! idx + high + rLow + carry in (js_shr a 30, js_and a 0x3FFFFFFF))
              else (0, 0));
          acc2 = acc1 + js_shl (js_and rMid1 0x7FFF) 15 + js_shl (js_and rMid2 0x7FFF) 15;
          carry2 = carry1 + js_shr acc2 30;
          high2 = rHigh + js_shr rMid1 15 + js_shr rMid2 15
      in mulacc_loop ms m2Low m2High (setDigit acc idx (js_and acc2 0x3FFFFFFF)) (Suc idx)
           carry2 high2)"

lemma length_setDigit_inside: "i < length xs \<Longrightarrow> length (setDigit xs i d) = length xs"
  by (simp add: setDigit_def)

function carry_loop :: "int list \<Rightarrow> nat \<Rightarrow> int \<Rightarrow> int \<Rightarrow> int list" where
  "carry_loop acc idx carry high =
     (if carry \<noteq> 0 \<or> high \<noteq> 0 then
        (if idx < length acc
         then (let a = acc ! idx + carry + high in
               carry_loop (setDigit acc idx (js_and a 0x3FFFFFFF)) (Suc idx) (js_shr a 30) 0)
         else setDigit acc idx 0)
      else acc)"
  by pat_completeness auto
termination
  by (relation "measure (\<lambda>(acc, idx, carry, high). length acc - idx)")
     (auto simp: length_setDigit_inside)

declare carry_loop.simps [simp del]

definition multiplyAccumulate :: "int list \<Rightarrow> int \<Rightarrow> int list \<Rightarrow> nat \<Rightarrow> int list" where
  "multiplyAccumulate multiplicand multiplier accumulator accumulatorIndex =
     (if multiplier = 0 then accumulator
      else
        let m2Low = js_and multiplier 0x7FFF;
            m2High = js_shr multiplier 15;
            (acc, idx, carry, high) =
               mulacc_loop multiplicand m2Low m2High accumulator accumulatorIndex 0 0
        in carry_loop acc idx carry high)"

fun multiply_loop :: "int list \<Rightarrow> int list \<Rightarrow> int list \<Rightarrow> nat \<Rightarrow> int list" where
  "multiply_loop [] ys acc i = acc"
| "multiply_loop (d # ds) ys acc i = multiply_loop ds ys (multiplyAccumulate ys d acc i) (Suc i)"

definition multiply :: "JSBI \<Rightarrow> JSBI \<Rightarrow> error + JSBI" where
  "multiply x y =
     (if digits x = [] then Inr x
      else if digits y = [] then Inr y
      else
        let resultLength =
              (if clzmsd (digits x) + clzmsd (digits y) \<ge> 30
               then length (digits x) + length (digits y) - 1
               else length (digits x) + length (digits y))
        in if \<not> allocatable resultLength then Inl (RangeError ''Maximum BigInt size exceeded'')
           else Inr (trim \<lparr>sign = (sign x \<noteq> sign y),
                            digits = multiply_loop (digits x) (digits y)
                                       (replicate resultLength 0) 0\<rparr>))"

text \<open>
  \<open>exponentiate\<close>. After the guards the exponent is a non-negative integer below
  \<open>2^30\<close>, so the loop variable is a natural number and \<open>>>= 1\<close> halves it.
  \<open>result\<close> starts as \<open>null\<close> (\<open>None\<close>).
\<close>

function exp_loop :: "nat \<Rightarrow> JSBI \<Rightarrow> JSBI option \<Rightarrow> error + JSBI option" where
  "exp_loop expValue runningSquare result =
     (if expValue \<noteq> 0 then
        (case multiply runningSquare runningSquare of
           Inl e \<Rightarrow> Inl e
         | Inr sq \<Rightarrow>
             if odd expValue then
               (case result of
                  None \<Rightarrow> exp_loop (expValue div 2) sq (Some sq)
                | Some r \<Rightarrow>
                    (case multiply r sq of
                       Inl e \<Rightarrow> Inl e
                     | Inr r' \<Rightarrow> exp_loop (expValue div 2) sq (Some r')))
             else exp_loop (expValue div 2) sq result)
      else Inr result)"
  by pat_completeness auto
termination
  by (relation "measure (\<lambda>(expValue, runningSquare, result). expValue)") auto

declare exp_loop.simps [simp del]

definition exponentiate :: "JSBI \<Rightarrow> JSBI \<Rightarrow> error + JSBI" where
  "exponentiate x y =
     (if sign y then Inl (RangeError ''Exponent must be positive'')
      else if digits y = [] then Inr (oneDigit 1 False)
      else if digits x = [] then Inr x
      else if length (digits x) = 1 \<and> digits x ! 0 = 1 then
        (if sign x \<and> js_and (digits y ! 0) 1 = 0 then Inr (unaryMinus x) else Inr x)
      else if length (digits y) > 1 then Inl (RangeError ''BigInt too big'')
      else
        let expValue = unsignedDigit (digits y) 0 in
        if expValue = 1 then Inr x
        else if expValue \<ge> kMaxLengthBits then Inl (RangeError ''BigInt too big'')
        else if length (digits x) = 1 \<and> digits x ! 0 = 2 then
          (let neededDigits = 1 + nat (js_div expValue 30);
               s = (sign x \<and> js_and expValue 1 \<noteq> 0)
           in if \<not> allocatable neededDigits
              then Inl (RangeError ''Maximum BigInt size exceeded'')
              else Inr \<lparr>sign = s,
                        digits = setDigit (replicate neededDigits 0) (neededDigits - 1)
                                   (js_shl 1 (js_mod expValue 30))\<rparr>)
        else
          (case exp_loop (nat (js_sar expValue 1)) x
                  (if js_and expValue 1 \<noteq> 0 then Some x else None) of
             Inl e \<Rightarrow> Inl e
           | Inr None \<Rightarrow> Inl NullResult
           | Inr (Some r) \<Rightarrow> Inr r))"

section \<open>Division core\<close>

text \<open>
  \<open>__absoluteDivSmall\<close> and \<open>__absoluteModSmall\<close>: the loops walk down from the top
  half-digit; \<open>k\<close> counts the digits (half-digits) still to visit.
\<close>

fun divSmall_loop :: "int list \<Rightarrow> int \<Rightarrow> nat \<Rightarrow> int \<Rightarrow> int list \<Rightarrow> int list" where
  "divSmall_loop x divisor 0 remainder quot = quot"
| "divSmall_loop x divisor (Suc k) remainder quot =
     (let input = js_shr (js_or (js_shl remainder 15) (halfDigit x (2 * k + 1))) 0;
          upperHalf = js_div input divisor;
          remainder1 = js_mod input divisor;
          input2 = js_shr (js_or (js_shl remainder1 15) (halfDigit x (2 * k))) 0;
          lowerHalf = js_div input2 divisor;
          remainder2 = js_mod input2 divisor
      in divSmall_loop x divisor k remainder2
           (setDigit quot k (js_or (js_shl upperHalf 15) lowerHalf)))"

definition absoluteDivSmall :: "JSBI \<Rightarrow> int \<Rightarrow> error + JSBI" where
  "absoluteDivSmall x divisor =
     (if \<not> allocatable (length (digits x))
      then Inl (RangeError ''Maximum BigInt size exceeded'')
      else Inr \<lparr>sign = False,
                digits = divSmall_loop (digits x) divisor (length (digits x)) 0
                           (replicate (length (digits x)) 0)\<rparr>)"

fun modSmall_loop :: "int list \<Rightarrow> int \<Rightarrow> nat \<Rightarrow> int \<Rightarrow> int" where
  "modSmall_loop x divisor 0 remainder = remainder"
| "modSmall_loop x divisor (Suc i) remainder =
     (let input = js_shr (js_or (js_shl remainder 15) (halfDigit x i)) 0
      in modSmall_loop x divisor i (js_mod input divisor))"

definition absoluteModSmall :: "JSBI \<Rightarrow> int \<Rightarrow> int" where
  "absoluteModSmall x divisor = modSmall_loop (digits x) divisor (2 * length (digits x)) 0"

text \<open>
  \<open>__internalMultiplyAdd(source, factor, summand, n, result)\<close>: the loop over the first
  \<open>n\<close> digits, then the top digit and the zero fill, or the check that nothing is left.
\<close>

fun ima_loop ::
  "int list \<Rightarrow> int \<Rightarrow> nat \<Rightarrow> nat \<Rightarrow> int \<Rightarrow> int \<Rightarrow> int list \<Rightarrow> int list \<times> int \<times> int" where
  "ima_loop source factor 0 i carry high result = (result, carry, high)"
| "ima_loop source factor (Suc k) i carry high result =
     (let digit = digitB source i;
          rx = imul (js_and digit 0x7FFF) factor;
          ry = imul (js_shr digit 15) factor;
          r = rx + js_shl (js_and ry 0x7FFF) 15 + high + carry
      in ima_loop source factor k (Suc i) (js_shr r 30) (js_shr ry 15)
           (setDigit result i (js_and r 0x3FFFFFFF)))"

definition internalMultiplyAdd ::
  "int list \<Rightarrow> int \<Rightarrow> int \<Rightarrow> nat \<Rightarrow> int list \<Rightarrow> error + int list" where
  "internalMultiplyAdd source factor summand n result =
     (let (res, carry, high) = ima_loop source factor n 0 summand 0 result in
      if length res > n
      then Inr (take (Suc n) (setDigit res n (carry + high)) @ replicate (length res - Suc n) 0)
      else if carry + high \<noteq> 0 then Inl (Error ''implementation bug'')
      else Inr res)"

text \<open>\<open>__inplaceAdd\<close> works on half-digits and hands back the carry.\<close>

fun inplaceAdd_loop ::
  "int list \<Rightarrow> nat \<Rightarrow> nat \<Rightarrow> nat \<Rightarrow> int \<Rightarrow> int list \<Rightarrow> int list \<times> int" where
  "inplaceAdd_loop summand startIndex 0 i carry jsbi = (jsbi, carry)"
| "inplaceAdd_loop summand startIndex (Suc k) i carry jsbi =
     (let sm = halfDigit jsbi (startIndex + i) + halfDigit summand i + carry
      in inplaceAdd_loop summand startIndex k (Suc i) (js_shr sm 15)
           (setHalfDigit jsbi (startIndex + i) (js_and sm 0x7FFF)))"

definition inplaceAdd :: "int list \<Rightarrow> int list \<Rightarrow> nat \<Rightarrow> nat \<Rightarrow> int list \<times> int" where
  "inplaceAdd jsbi summand startIndex halfDigits =
     inplaceAdd_loop summand startIndex halfDigits 0 0 jsbi"

text \<open>
  \<open>__inplaceSub(jsbi, subtrahend, startIndex, halfDigits)\<close>. With an odd start the
  subtrahend straddles the digits of \<open>jsbi\<close>; the state of that loop is the array,
  \<open>current\<close>, \<open>r0\<close> and \<open>borrow\<close>. All digit reads flow into bitwise operators.
\<close>

fun inplaceSub_odd_loop ::
  "int list \<Rightarrow> nat \<Rightarrow> nat \<Rightarrow> nat \<Rightarrow> int list \<Rightarrow> int \<Rightarrow> int \<Rightarrow> int
     \<Rightarrow> int list \<times> int \<times> int \<times> int" where
  "inplaceSub_odd_loop subtrahend startIndex 0 i jsbi current r0 borrow =
     (jsbi, current, r0, borrow)"
| "inplaceSub_odd_loop subtrahend startIndex (Suc k) i jsbi current r0 borrow =
     (let sub = digitB subtrahend i;
          r15 = js_shr current 15 - js_and sub 0x7FFF - borrow;
          borrow1 = js_and (js_shr r15 15) 1;
          jsbi1 = setDigit jsbi (startIndex + i)
                    (js_or (js_shl (js_and r15 0x7FFF) 15) (js_and r0 0x7FFF));
          current1 = digitB jsbi1 (startIndex + i + 1);
          r0' = js_and current1 0x7FFF - js_shr sub 15 - borrow1;
          borrow2 = js_and (js_shr r0' 15) 1
      in inplaceSub_odd_loop subtrahend startIndex k (Suc i) jsbi1 current1 r0' borrow2)"

fun inplaceSub_even_loop ::
  "int list \<Rightarrow> nat \<Rightarrow> nat \<Rightarrow> nat \<Rightarrow> int list \<Rightarrow> int \<Rightarrow> int list \<times> int" where
  "inplaceSub_even_loop subtrahend startIndex 0 i jsbi borrow = (jsbi, borrow)"
| "inplaceSub_even_loop subtrahend startIndex (Suc k) i jsbi borrow =
     (let current = digitB jsbi (startIndex + i);
          sub = digitB subtrahend i;
          r0 = js_and current 0x7FFF - js_and sub 0x7FFF - borrow;
          borrow1 = js_and (js_shr r0 15) 1;
          r15 = js_shr current 15 - js_shr sub 15 - borrow1;
          borrow2 = js_and (js_shr r15 15) 1
      in inplaceSub_even_loop subtrahend startIndex k (Suc i)
           (setDigit jsbi (startIndex + i)
              (js_or (js_shl (js_and r15 0x7FFF) 15) (js_and r0 0x7FFF)))
           borrow2)"

definition inplaceSub :: "int list \<Rightarrow> int list \<Rightarrow> nat \<Rightarrow> nat \<Rightarrow> error + int list \<times> int" where
  "inplaceSub jsbi subtrahend startIndex0 halfDigits =
     (let fullSteps = (halfDigits - 1) div 2;
          startIndex = startIndex0 div 2
      in
      if odd startIndex0 then
        (let current0 = digitB jsbi startIndex;
             r00 = js_and current0 0x7FFF;
             (jsbi1, current, r0, borrow) =
                inplaceSub_odd_loop subtrahend startIndex fullSteps 0 jsbi current0 r00 0;
             i = fullSteps;
             sub = digitB subtrahend i;
             r15 = js_shr current 15 - js_and sub 0x7FFF - borrow;
             borrow1 = js_and (js_shr r15 15) 1;
             jsbi2 = setDigit jsbi1 (startIndex + i)
                       (js_or (js_shl (js_and r15 0x7FFF) 15) (js_and r0 0x7FFF));
             subTop = js_shr sub 15
         in
         if startIndex + i + 1 \<ge> length jsbi2 then Inl (RangeError ''out of bounds'')
         else if even halfDigits then
           (let current2 = digitB jsbi2 (startIndex + i + 1);
                r0' = js_and current2 0x7FFF - subTop - borrow1;
                borrow2 = js_and (js_shr r0' 15) 1
            in Inr (setDigit jsbi2 (startIndex + length subtrahend)
                      (js_or (js_and current2 0x3FFF8000) (js_and r0' 0x7FFF)),
                    borrow2))
         else Inr (jsbi2, borrow1))
      else
        (let (jsbi1, borrow) =
                inplaceSub_even_loop subtrahend startIndex (length subtrahend - 1) 0 jsbi 0;
             i = length subtrahend - 1;
             current = digitB jsbi1 (startIndex + i);
             sub = digitB subtrahend i;
             r0 = js_and current 0x7FFF - js_and sub 0x7FFF - borrow;
             borrow1 = js_and (js_shr r0 15) 1;
             (r15, borrow2) =
                (if even halfDigits
                 then (let r = js_shr current 15 - js_shr sub 15 - borrow1
                       in (r, js_and (js_shr r 15) 1))
                 else (0, borrow1))
         in Inr (setDigit jsbi1 (startIndex + i)
                   (js_or (js_shl (js_and r15 0x7FFF) 15) (js_and r0 0x7FFF)),
                 borrow2)))"

text \<open>\<open>__inplaceRightShift\<close> and \<open>__specialLeftShift\<close>\<close>

fun shr_loop :: "int list \<Rightarrow> int \<Rightarrow> int \<Rightarrow> int list" where
  "shr_loop [] shift carry = [toInt32 carry]"
| "shr_loop (d # ds) shift carry =
     toInt32 (js_or (js_and (js_shl d (30 - shift)) 0x3FFFFFFF) carry)
       # shr_loop ds shift (js_shr d shift)"

definition inplaceRightShift :: "int list \<Rightarrow> int \<Rightarrow> int list" where
  "inplaceRightShift jsbi shift =
     (if shift = 0 then jsbi
      else case jsbi of [] \<Rightarrow> [] | d0 # ds \<Rightarrow> shr_loop ds shift (js_shr d0 shift))"

fun shl_loop :: "int list \<Rightarrow> int \<Rightarrow> int \<Rightarrow> int list \<times> int" where
  "shl_loop [] shift carry = ([], carry)"
| "shl_loop (d # ds) shift carry =
     (let (rs, c) = shl_loop ds shift (js_shr d (30 - shift))
      in (toInt32 (js_or (js_and (js_shl d shift) 0x3FFFFFFF) carry) # rs, c))"

definition specialLeftShift :: "int list \<Rightarrow> int \<Rightarrow> bool \<Rightarrow> error + int list" where
  "specialLeftShift x shift addDigit =
     (let resultLength = length x + (if addDigit then 1 else 0) in
      if \<not> allocatable resultLength then Inl (RangeError ''Maximum BigInt size exceeded'')
      else if shift = 0 then Inr (map toInt32 x @ (if addDigit then [0] else []))
      else
        let (rs, carry) = shl_loop x shift 0
        in Inr (rs @ (if addDigit then [toInt32 carry] else [])))"

text \<open>
  \<open>__absoluteDivLarge\<close>: Knuth's Algorithm D on half-digits.

  A half-digit read at a negative index reaches slot \<open>i >>> 1 \<ge> 2^30\<close>, which no array has:
  it reads 0.

  The correction loop of step D3 adds \<open>vn1\<close> to \<open>rhat\<close> until \<open>rhat\<close> leaves the
  half-digit range. \<open>vn1\<close> is a half-digit, so it is never negative, and when it is 0 the
  estimate \<open>qhat = (input / 0) | 0\<close> is 0 and the loop condition is false on entry: the
  conjunct \<open>0 < vn1\<close> leaves every run of the source unchanged and makes the recursion
  well-founded.
\<close>

definition halfDigitI :: "int list \<Rightarrow> int \<Rightarrow> int" where
  "halfDigitI xs i = (if i < 0 then 0 else halfDigit xs (nat i))"

function qhat_loop :: "int \<Rightarrow> int \<Rightarrow> int \<Rightarrow> int \<Rightarrow> int \<Rightarrow> int" where
  "qhat_loop qhat rhat vn1 vn2 ujn2 =
     (if 0 < vn1 \<and> js_shr (imul qhat vn2) 0 > js_shr (js_or (js_shl rhat 16) ujn2) 0 then
        (if rhat + vn1 > 0x7FFF then qhat - 1
         else qhat_loop (qhat - 1) (rhat + vn1) vn1 vn2 ujn2)
      else qhat)"
  by pat_completeness auto
termination
  by (relation "measure (\<lambda>(qhat, rhat, vn1, vn2, ujn2). nat (0x8000 - rhat))") auto

declare qhat_loop.simps [simp del]

text \<open>
  One round of the main loop (steps D3 and D4 for one \<open>j\<close>). The state is the running
  dividend \<open>u\<close>, the quotient \<open>q\<close>, \<open>halfDigitBuffer\<close> and the scratch product
  \<open>qhatv\<close>.
\<close>

definition divLarge_step ::
  "int list \<Rightarrow> nat \<Rightarrow> nat \<Rightarrow> int \<Rightarrow> bool \<Rightarrow> nat
     \<Rightarrow> int list \<times> int list \<times> int \<times> int list
     \<Rightarrow> error + int list \<times> int list \<times> int \<times> int list" where
  "divLarge_step divisor n n2 vn1 wantQuotient j st =
     (case st of (u, q, halfDigitBuffer, qhatv) \<Rightarrow>
      let ujn = halfDigit u (j + n);
          qhat =
            (if ujn \<noteq> vn1 then
               (let input = js_shr (js_or (js_shl ujn 15) (halfDigitI u (int j + int n - 1))) 0;
                    qhat0 = js_div input vn1;
                    rhat = js_mod input vn1;
                    vn2 = halfDigitI divisor (int n - 2);
                    ujn2 = halfDigitI u (int j + int n - 2)
                in qhat_loop qhat0 rhat vn1 vn2 ujn2)
             else 0x7FFF)
      in
      case internalMultiplyAdd divisor qhat 0 n2 qhatv of
        Inl e \<Rightarrow> Inl e
      | Inr qhatv1 \<Rightarrow>
          (case inplaceSub u qhatv1 j (n + 1) of
             Inl e \<Rightarrow> Inl e
           | Inr (u1, c) \<Rightarrow>
               let (u2, qhat1) =
                     (if c \<noteq> 0 then
                        (let (ua, c2) = inplaceAdd u1 divisor j n
                         in (setHalfDigit ua (j + n) (js_and (halfDigit ua (j + n) + c2) 0x7FFF),
                             qhat - 1))
                      else (u1, qhat));
                   (q1, buffer1) =
                     (if wantQuotient then
                        (if odd j then (q, js_shl qhat1 15)
                         else (setDigit q (j div 2) (js_or halfDigitBuffer qhat1),
                               halfDigitBuffer))
                      else (q, halfDigitBuffer))
               in Inr (u2, q1, buffer1, qhatv1)))"

text \<open>The loop \<open>for (j = m; j >= 0; j--)\<close>: \<open>k\<close> is \<open>j + 1\<close>.\<close>

fun divLarge_loop ::
  "int list \<Rightarrow> nat \<Rightarrow> nat \<Rightarrow> int \<Rightarrow> bool \<Rightarrow> nat
     \<Rightarrow> int list \<times> int list \<times> int \<times> int list
     \<Rightarrow> error + int list \<times> int list \<times> int \<times> int list" where
  "divLarge_loop divisor n n2 vn1 wantQuotient 0 st = Inr st"
| "divLarge_loop divisor n n2 vn1 wantQuotient (Suc j) st =
     (case divLarge_step divisor n n2 vn1 wantQuotient j st of
        Inl e \<Rightarrow> Inl e
      | Inr st1 \<Rightarrow> divLarge_loop divisor n n2 vn1 wantQuotient j st1)"

text \<open>
  The callers hand over a non-empty divisor, so \<open>n\<close> is at least 1 and is a natural number;
  what the source does on an empty divisor is not modelled. The result is the pair of the
  quotient and the remainder, each present when asked for.
\<close>

definition absoluteDivLarge ::
  "JSBI \<Rightarrow> JSBI \<Rightarrow> bool \<Rightarrow> bool \<Rightarrow> error + JSBI option \<times> JSBI option" where
  "absoluteDivLarge dividend divisor wantQuotient wantRemainder =
     (let n = nat (halfDigitLength (digits divisor));
          n2 = length (digits divisor);
          m = halfDigitLength (digits dividend) - int n;
          qLength = (if wantQuotient then nat (js_shr (m + 2) 1) else 0);
          qhatvLength = nat (js_shr (int n + 2) 1);
          shift = clz15 (halfDigitI (digits divisor) (int n - 1))
      in
      if \<not> allocatable qLength \<or> \<not> allocatable qhatvLength
      then Inl (RangeError ''Maximum BigInt size exceeded'')
      else
        case (if shift > 0 then specialLeftShift (digits divisor) shift False
              else Inr (digits divisor)) of
          Inl e \<Rightarrow> Inl e
        | Inr v \<Rightarrow>
            (case specialLeftShift (digits dividend) shift True of
               Inl e \<Rightarrow> Inl e
             | Inr u0 \<Rightarrow>
                 (case divLarge_loop v n n2 (halfDigitI v (int n - 1)) wantQuotient
                         (nat (m + 1))
                         (u0, replicate qLength 0, 0, replicate qhatvLength 0) of
                    Inl e \<Rightarrow> Inl e
                  | Inr (u, q, halfDigitBuffer, qhatv) \<Rightarrow>
                      if wantRemainder then
                        Inr (if wantQuotient then Some \<lparr>sign = False, digits = q\<rparr> else None,
                             Some \<lparr>sign = False, digits = inplaceRightShift u shift\<rparr>)
                      else if wantQuotient then Inr (Some \<lparr>sign = False, digits = q\<rparr>, None)
                      else Inl (Error ''unreachable''))))"

definition divide :: "JSBI \<Rightarrow> JSBI \<Rightarrow> error + JSBI" where
  "divide x y =
     (if digits y = [] then Inl (RangeError ''Division by zero'')
      else if absoluteCompare x y < 0 then Inr zero
      else
        let resultSign = (sign x \<noteq> sign y);
            divisor = unsignedDigit (digits y) 0
        in
        if length (digits y) = 1 \<and> divisor \<le> 0x7FFF then
          (if divisor = 1 then Inr (if resultSign = sign x then x else unaryMinus x)
           else
             case absoluteDivSmall x divisor of
               Inl e \<Rightarrow> Inl e
             | Inr quot \<Rightarrow> Inr (trim (quot\<lparr>sign := resultSign\<rparr>)))
        else
          (case absoluteDivLarge x y True False of
             Inl e \<Rightarrow> Inl e
           | Inr (Some quot, r) \<Rightarrow> Inr (trim (quot\<lparr>sign := resultSign\<rparr>))
           | Inr (None, r) \<Rightarrow> Inl NullResult))"

definition remainder :: "JSBI \<Rightarrow> JSBI \<Rightarrow> error + JSBI" where
  "remainder x y =
     (if digits y = [] then Inl (RangeError ''Division by zero'')
      else if absoluteCompare x y < 0 then Inr x
      else
        let divisor = unsignedDigit (digits y) 0 in
        if length (digits y) = 1 \<and> divisor \<le> 0x7FFF then
          (if divisor = 1 then Inr zero
           else
             let remainderDigit = absoluteModSmall x divisor in
             if remainderDigit = 0 then Inr zero
             else Inr (oneDigit remainderDigit (sign x)))
        else
          (case absoluteDivLarge x y False True of
             Inl e \<Rightarrow> Inl e
           | Inr (quot, Some r) \<Rightarrow> Inr (trim (r\<lparr>sign := sign x\<rparr>))
           | Inr (quot, None) \<Rightarrow> Inl NullResult))"

section \<open>Parsing\<close>

text \<open>
  A string is the list of its UTF-16 code units (\<open>charCodeAt\<close>). The parser's cursor is
  modelled by the suffix of the string that starts at the cursor: \<open>current\<close> is its head,
  and \<open>++cursor === length\<close> holds when its tail is empty.
\<close>

type_synonym jsstring = "int list"

definition isWhitespace :: "int \<Rightarrow> bool" where
  "isWhitespace c =
     (if c \<le> 0x0D \<and> c \<ge> 0x09 then True
      else if c \<le> 0x9F then c = 0x20
      else if c \<le> 0x01FFFF then c = 0xA0 \<or> c = 0x1680
      else if c \<le> 0x02FFFF then
        (let c' = js_and c 0x01FFFF in
         c' \<le> 0x0A \<or> c' = 0x28 \<or> c' = 0x29 \<or> c' = 0x2F \<or> c' = 0x5F \<or> c' = 0x1000)
      else c = 0xFEFF)"

definition kMaxBitsPerChar :: "int list" where
  "kMaxBitsPerChar =
     [0, 0, 32, 51, 64, 75, 83, 90, 96,
      102, 107, 111, 115, 119, 122, 126, 128,
      131, 134, 136, 139, 141, 143, 145, 147,
      149, 151, 153, 154, 156, 158, 159, 160,
      162, 163, 165, 166]"

definition kBitsPerCharTableShift :: int where
  "kBitsPerCharTableShift = 5"

definition kBitsPerCharTableMultiplier :: int where
  "kBitsPerCharTableMultiplier = 32"

text \<open>
  \<open>__inplaceMultiplyAdd(jsbi, multiplier, summand, length)\<close>: the loop hands back the
  array, \<open>carry\<close> and \<open>high\<close>.
\<close>

fun inplaceMultiplyAdd_loop ::
  "int \<Rightarrow> int \<Rightarrow> nat \<Rightarrow> nat \<Rightarrow> int \<Rightarrow> int \<Rightarrow> int list \<Rightarrow> int list \<times> int \<times> int" where
  "inplaceMultiplyAdd_loop mLow mHigh 0 i carry high jsbi = (jsbi, carry, high)"
| "inplaceMultiplyAdd_loop mLow mHigh (Suc k) i carry high jsbi =
     (let d = digitB jsbi i;
          dLow = js_and d 0x7FFF;
          dHigh = js_shr d 15;
          pLow = imul dLow mLow;
          pMid1 = imul dLow mHigh;
          pMid2 = imul dHigh mLow;
          pHigh = imul dHigh mHigh;
          result0 = high + pLow + carry;
          carry1 = js_shr result0 30;
          result1 = js_and result0 0x3FFFFFFF
                      + (js_shl (js_and pMid1 0x7FFF) 15 + js_shl (js_and pMid2 0x7FFF) 15);
          carry2 = carry1 + js_shr result1 30;
          high1 = pHigh + js_shr pMid1 15 + js_shr pMid2 15
      in inplaceMultiplyAdd_loop mLow mHigh k (Suc i) carry2 high1
           (setDigit jsbi i (js_and result1 0x3FFFFFFF)))"

definition inplaceMultiplyAdd :: "int list \<Rightarrow> int \<Rightarrow> int \<Rightarrow> int \<Rightarrow> error + int list" where
  "inplaceMultiplyAdd jsbi multiplier summand len =
     (let len' = (if len > int (length jsbi) then length jsbi else nat len);
          (res, carry, high) =
             inplaceMultiplyAdd_loop (js_and multiplier 0x7FFF) (js_shr multiplier 15)
               len' 0 0 summand jsbi
      in if carry \<noteq> 0 \<or> high \<noteq> 0 then Inl (Error ''implementation bug'') else Inr res)"

text \<open>
  \<open>__fillFromParts\<close>: the loop runs over the parts from the last to the first; its state
  is the array, \<open>digitIndex\<close>, \<open>digit\<close> and \<open>bitsInDigit\<close>.
\<close>

fun fillFromParts_loop ::
  "(int \<times> int) list \<Rightarrow> int list \<Rightarrow> nat \<Rightarrow> int \<Rightarrow> int \<Rightarrow> int list \<times> nat \<times> int" where
  "fillFromParts_loop [] result digitIndex digit bitsInDigit = (result, digitIndex, digit)"
| "fillFromParts_loop ((part, partBits) # ps) result digitIndex digit bitsInDigit =
     (let digit1 = js_or digit (js_shl part bitsInDigit);
          bits1 = bitsInDigit + partBits
      in if bits1 = 30 then
           fillFromParts_loop ps (setDigit result digitIndex digit1) (Suc digitIndex) 0 0
         else if bits1 > 30 then
           fillFromParts_loop ps (setDigit result digitIndex (js_and digit1 0x3FFFFFFF))
             (Suc digitIndex) (js_shr part (partBits - (bits1 - 30))) (bits1 - 30)
         else fillFromParts_loop ps result digitIndex digit1 bits1)"

definition fillFromParts :: "int list \<Rightarrow> int list \<Rightarrow> int list \<Rightarrow> error + int list" where
  "fillFromParts result parts partsBits =
     (let (res, digitIndex, digit) =
            fillFromParts_loop (rev (zip parts partsBits)) result 0 0 0
      in if digit \<noteq> 0 then
           (if digitIndex \<ge> length res then Inl (Error ''implementation bug'')
            else
              let res1 = setDigit res digitIndex digit
              in Inr (take (Suc digitIndex) res1 @ replicate (length res1 - Suc digitIndex) 0))
         else Inr (take digitIndex res @ replicate (length res - digitIndex) 0))"

text \<open>
  The value of a digit character below the radix, or \<open>None\<close> where the source sets
  \<open>done\<close> and leaves the loop.
\<close>

definition charDigit :: "int \<Rightarrow> int \<Rightarrow> int \<Rightarrow> int option" where
  "charDigit current limDigit limAlpha =
     (if js_shr (current - 48) 0 < limDigit then Some (current - 48)
      else if js_shr (js_or current 32 - 97) 0 < limAlpha then Some (js_or current 32 - 87)
      else None)"

text \<open>
  Power-of-two radix: the inner \<open>while (true)\<close> collects one part; it hands back the part,
  its bit count, the suffix at the cursor and \<open>done\<close>.
\<close>

fun pow2_inner ::
  "int \<Rightarrow> int \<Rightarrow> int \<Rightarrow> jsstring \<Rightarrow> int \<Rightarrow> int \<Rightarrow> int \<times> int \<times> jsstring \<times> bool" where
  "pow2_inner bitsPerChar limDigit limAlpha [] part bits = (part, bits, [], True)"
| "pow2_inner bitsPerChar limDigit limAlpha (current # rest) part bits =
     (case charDigit current limDigit limAlpha of
        None \<Rightarrow> (part, bits, current # rest, True)
      | Some d \<Rightarrow>
          let bits1 = bits + bitsPerChar;
              part1 = js_or (js_shl part bitsPerChar) d
          in if rest = [] then (part1, bits1, [], True)
             else if bits1 + bitsPerChar > 30 then (part1, bits1, rest, False)
             else pow2_inner bitsPerChar limDigit limAlpha rest part1 bits1)"

lemma pow2_inner_progress:
  "pow2_inner bpc ld la cs part bits = (p, b, cs', False) \<Longrightarrow> length cs' < length cs"
  by (induction cs arbitrary: part bits)
     (auto simp: Let_def split: option.splits if_splits, fastforce)

text \<open>
  The enclosing \<open>do ... while (!done)\<close>. A round that is not the last has consumed a
  character, which is what the recursion rests on.
\<close>

function pow2_outer ::
  "int \<Rightarrow> int \<Rightarrow> int \<Rightarrow> jsstring \<Rightarrow> int list \<Rightarrow> int list \<Rightarrow> int list \<times> int list \<times> jsstring" where
  "pow2_outer bitsPerChar limDigit limAlpha cs parts partsBits =
     (case pow2_inner bitsPerChar limDigit limAlpha cs 0 0 of
        (part, bits, cs', done) \<Rightarrow>
          if done then (parts @ [part], partsBits @ [bits], cs')
          else pow2_outer bitsPerChar limDigit limAlpha cs' (parts @ [part]) (partsBits @ [bits]))"
  by pat_completeness auto
termination
  by (relation "measure (\<lambda>(bpc, ld, la, cs, parts, partsBits). length cs)")
     (auto dest: pow2_inner_progress [OF sym])

declare pow2_outer.simps [simp del]

text \<open>
  General radix: the inner loop collects characters while the multiplier stays within a
  digit; it hands back the part, the multiplier, \<open>charsSoFar\<close>, the suffix at the cursor
  and \<open>done\<close>.
\<close>

fun gen_inner ::
  "int \<Rightarrow> int \<Rightarrow> int \<Rightarrow> jsstring \<Rightarrow> int \<Rightarrow> int \<Rightarrow> int
     \<Rightarrow> int \<times> int \<times> int \<times> jsstring \<times> bool" where
  "gen_inner radix limDigit limAlpha [] part multiplier charsSoFar =
     (part, multiplier, charsSoFar, [], True)"
| "gen_inner radix limDigit limAlpha (current # rest) part multiplier charsSoFar =
     (case charDigit current limDigit limAlpha of
        None \<Rightarrow> (part, multiplier, charsSoFar, current # rest, True)
      | Some d \<Rightarrow>
          let m = multiplier * radix in
          if m > 0x3FFFFFFF then (part, multiplier, charsSoFar, current # rest, False)
          else if rest = [] then (part * radix + d, m, charsSoFar + 1, [], True)
          else gen_inner radix limDigit limAlpha rest (part * radix + d) m (charsSoFar + 1))"

text \<open>
  The enclosing \<open>do ... while (!done)\<close>. Each round starts with multiplier 1, so with a
  radix of the table (at most 36) a round that is not the last has consumed a character
  (\<open>gen_inner_progress\<close> below); the branch for a round without progress is there to make
  the recursion well-founded and is never taken for such a radix.
\<close>

function gen_outer ::
  "int \<Rightarrow> int \<Rightarrow> int \<Rightarrow> int \<Rightarrow> jsstring \<Rightarrow> int \<Rightarrow> int list \<Rightarrow> error + int list \<times> jsstring" where
  "gen_outer radix bitsPerChar limDigit limAlpha cs charsSoFar result =
     (case gen_inner radix limDigit limAlpha cs 0 1 charsSoFar of
        (part, multiplier, charsSoFar1, cs', done) \<Rightarrow>
          let roundup = kBitsPerCharTableMultiplier * 30 - 1;
              digitsSoFar =
                js_div (js_shr (bitsPerChar * charsSoFar1 + roundup) kBitsPerCharTableShift) 30
          in case inplaceMultiplyAdd result multiplier part digitsSoFar of
               Inl e \<Rightarrow> Inl e
             | Inr res \<Rightarrow>
                 if done then Inr (res, cs')
                 else if length cs' < length cs
                 then gen_outer radix bitsPerChar limDigit limAlpha cs' charsSoFar1 res
                 else Inl (Error ''no progress''))"
  by pat_completeness auto
termination
  by (relation "measure (\<lambda>(radix, bpc, ld, la, cs, charsSoFar, result). length cs)") auto

declare gen_outer.simps [simp del]

fun skipWhitespace :: "jsstring \<Rightarrow> jsstring" where
  "skipWhitespace [] = []"
| "skipWhitespace (c # cs) = (if isWhitespace c then skipWhitespace cs else c # cs)"

fun skipZeros :: "jsstring \<Rightarrow> jsstring" where
  "skipZeros [] = []"
| "skipZeros (c # cs) = (if c = 0x30 then skipZeros cs else c # cs)"

text \<open>
  The body of \<open>__fromString\<close> from the allocation on: \<open>cs\<close> is the non-empty suffix left
  after the leading zeros. \<open>chars > (1 << 30) / bitsPerChar\<close> compares an integer with a
  double quotient; for the positive table entries it is the comparison of the product.
\<close>

definition parseDigits :: "jsstring \<Rightarrow> int \<Rightarrow> int \<Rightarrow> error + JSBI option" where
  "parseDigits cs sg radix =
     (let chars = int (length cs);
          bitsPerChar = kMaxBitsPerChar ! nat radix;
          roundup = kBitsPerCharTableMultiplier - 1
      in
      if chars * bitsPerChar > js_shl 1 30 then Inr None
      else
        let bitsMin = js_shr (bitsPerChar * chars + roundup) kBitsPerCharTableShift;
            resultLength = nat (js_div (bitsMin + 29) 30)
        in
        if \<not> allocatable resultLength then Inl (RangeError ''Maximum BigInt size exceeded'')
        else
          let limDigit = (if radix < 10 then radix else 10);
              limAlpha = (if radix > 10 then radix - 10 else 0);
              parsed =
                (if js_and radix (radix - 1) = 0 then
                   (case pow2_outer (js_sar bitsPerChar kBitsPerCharTableShift) limDigit limAlpha
                           cs [] [] of
                      (parts, partsBits, rest) \<Rightarrow>
                        (case fillFromParts (replicate resultLength 0) parts partsBits of
                           Inl e \<Rightarrow> Inl e
                         | Inr res \<Rightarrow> Inr (res, rest)))
                 else gen_outer radix bitsPerChar limDigit limAlpha cs 0
                        (replicate resultLength 0))
          in case parsed of
               Inl e \<Rightarrow> Inl e
             | Inr (res, rest) \<Rightarrow>
                 if \<not> list_all isWhitespace rest then Inr None
                 else Inr (Some (trim \<lparr>sign = (sg = -1), digits = res\<rparr>)))"

text \<open>
  \<open>__fromString(string, radix = 0)\<close>. \<open>None\<close> is the \<open>null\<close> sentinel. The flag
  \<open>leadingZero\<close> of the source is written but never read and is left out. The library
  calls the function with the default radix only; the model covers radix 0 and the radixes
  2..36 of the table \<open>kMaxBitsPerChar\<close>, and answers any other radix with an error of its
  own.
\<close>

definition afterSign :: "jsstring \<Rightarrow> int \<Rightarrow> int \<Rightarrow> error + JSBI option" where
  "afterSign cs sg radix0 =
     (let isX = (\<lambda>c. c = 0x58 \<or> c = 0x78);
          isO = (\<lambda>c. c = 0x4F \<or> c = 0x6F);
          isB = (\<lambda>c. c = 0x42 \<or> c = 0x62);
          finish = (\<lambda>cs1 radix.
             if sg \<noteq> 0 \<and> radix \<noteq> 10 then Inr None
             else case skipZeros cs1 of
                    [] \<Rightarrow> Inr (Some zero)
                  | c # cs2 \<Rightarrow> parseDigits (c # cs2) sg radix)
      in
      case cs of
        [] \<Rightarrow> Inr (Some zero)
      | current # rest \<Rightarrow>
          if radix0 = 0 then
            (if current = 0x30 then
               (case rest of
                  [] \<Rightarrow> Inr (Some zero)
                | c2 # rest2 \<Rightarrow>
                    if isX c2 then (if rest2 = [] then Inr None else finish rest2 16)
                    else if isO c2 then (if rest2 = [] then Inr None else finish rest2 8)
                    else if isB c2 then (if rest2 = [] then Inr None else finish rest2 2)
                    else finish rest 10)
             else finish cs 10)
          else if radix0 = 16 then
            (if current = 0x30 then
               (case rest of
                  [] \<Rightarrow> Inr (Some zero)
                | c2 # rest2 \<Rightarrow>
                    if isX c2 then (if rest2 = [] then Inr None else finish rest2 16)
                    else finish rest 16)
             else finish cs 16)
          else finish cs radix0)"

definition fromString :: "jsstring \<Rightarrow> int \<Rightarrow> error + JSBI option" where
  "fromString string radix =
     (if \<not> (radix = 0 \<or> (2 \<le> radix \<and> radix \<le> 36)) then Inl (Error ''radix not modelled'')
      else
        case skipWhitespace string of
          [] \<Rightarrow> Inr (Some zero)
        | current # rest \<Rightarrow>
            if current = 0x2B then (if rest = [] then Inr None else afterSign rest 1 radix)
            else if current = 0x2D then (if rest = [] then Inr None else afterSign rest (-1) radix)
            else afterSign (current # rest) 0 radix)"

text \<open>The string case of the constructor \<open>BigInt(arg)\<close>.\<close>

definition BigInt_string :: "jsstring \<Rightarrow> error + JSBI" where
  "BigInt_string arg =
     (case fromString arg 0 of
        Inl e \<Rightarrow> Inl e
      | Inr None \<Rightarrow> Inl SyntaxError
      | Inr (Some result) \<Rightarrow> Inr result)"

section \<open>Truncation to a bit width\<close>

text \<open>
  \<open>__truncateToNBits(n, x)\<close>. A digit of \<open>x\<close> that is copied goes through
  \<open>__setDigit\<close>, so a read past the end would store \<open>undefined | 0 = 0\<close>.
\<close>

definition truncateToNBits :: "int \<Rightarrow> JSBI \<Rightarrow> error + JSBI" where
  "truncateToNBits n x =
     (let neededDigits = nat (js_div (n + 29) 30) in
      if \<not> allocatable neededDigits then Inl (RangeError ''Maximum BigInt size exceeded'')
      else
        let last_i = neededDigits - 1;
            low = map (\<lambda>i. toInt32 (digitB (digits x) i)) [0..<last_i];
            msd0 = digitB (digits x) last_i;
            msd = (if js_mod n 30 \<noteq> 0
                   then (let drop = 32 - js_mod n 30 in js_shr (js_shl msd0 drop) drop)
                   else msd0)
        in Inr (trim \<lparr>sign = sign x, digits = low @ [toInt32 msd]\<rparr>))"

text \<open>
  \<open>__truncateAndSubFromPowerOfTwo(n, x, resultSign)\<close>: the borrow loop over the digits of
  \<open>x\<close> below the top digit of the result, the fill with \<open>-borrow & 0x3FFFFFFF\<close>, and the
  top digit.
\<close>

fun negate_loop :: "int list \<Rightarrow> int \<Rightarrow> int list \<times> int" where
  "negate_loop [] borrow = ([], borrow)"
| "negate_loop (d # ds) borrow =
     (let r = 0 - d - borrow;
          (rs, b) = negate_loop ds (js_and (js_shr r 30) 1)
      in (toInt32 (js_and r 0x3FFFFFFF) # rs, b))"

definition truncateAndSubFromPowerOfTwo :: "int \<Rightarrow> JSBI \<Rightarrow> bool \<Rightarrow> error + JSBI" where
  "truncateAndSubFromPowerOfTwo n x resultSign =
     (let neededDigits = nat (js_div (n + 29) 30) in
      if \<not> allocatable neededDigits then Inl (RangeError ''Maximum BigInt size exceeded'')
      else
        let last_i = neededDigits - 1;
            limit = min last_i (length (digits x));
            (low, borrow) = negate_loop (take limit (digits x)) 0;
            fill = replicate (last_i - limit) (js_or (js_and (- borrow) 0x3FFFFFFF) 0);
            msd0 = (if last_i < length (digits x) then digits x ! last_i else 0);
            msdBitsConsumed = js_mod n 30;
            resultMsd =
              (if msdBitsConsumed = 0 then js_and (0 - msd0 - borrow) 0x3FFFFFFF
               else
                 let drop = 32 - msdBitsConsumed;
                     msd = js_shr (js_shl msd0 drop) drop;
                     minuendMsd = js_shl 1 (32 - drop)
                 in js_and (minuendMsd - msd - borrow) (minuendMsd - 1))
        in Inr (trim \<lparr>sign = resultSign, digits = low @ fill @ [toInt32 resultMsd]\<rparr>))"

text \<open>
  \<open>asIntN(n, x)\<close> and \<open>asUintN(n, x)\<close>; \<open>n\<close> is the integer \<open>Math.floor\<close> hands
  back. The downward loop of \<open>asIntN\<close> looks for a non-zero digit below the top one.
\<close>

definition asIntN :: "int \<Rightarrow> JSBI \<Rightarrow> error + JSBI" where
  "asIntN n x =
     (if digits x = [] then Inr x
      else if n < 0 then Inl (RangeError ''Invalid value: not (convertible to) a safe integer'')
      else if n = 0 then Inr zero
      else if n \<ge> kMaxLengthBits then Inr x
      else
        let neededLength = nat (js_div (n + 29) 30) in
        if length (digits x) < neededLength then Inr x
        else
          let topDigit = unsignedDigit (digits x) (neededLength - 1);
              compareDigit = js_shl 1 (js_mod (n - 1) 30)
          in
          if length (digits x) = neededLength \<and> topDigit < compareDigit then Inr x
          else
            let hasBit = (js_and topDigit compareDigit = compareDigit) in
            if \<not> hasBit then truncateToNBits n x
            else if \<not> sign x then truncateAndSubFromPowerOfTwo n x True
            else if js_and topDigit (compareDigit - 1) = 0 then
              (if list_ex (\<lambda>d. d \<noteq> 0) (take (neededLength - 1) (digits x))
               then truncateAndSubFromPowerOfTwo n x False
               else if length (digits x) = neededLength \<and> topDigit = compareDigit then Inr x
               else truncateToNBits n x)
            else truncateAndSubFromPowerOfTwo n x False)"

definition asUintN :: "int \<Rightarrow> JSBI \<Rightarrow> error + JSBI" where
  "asUintN n x =
     (if digits x = [] then Inr x
      else if n < 0 then Inl (RangeError ''Invalid value: not (convertible to) a safe integer'')
      else if n = 0 then Inr zero
      else if sign x then
        (if n > kMaxLengthBits then Inl (RangeError ''BigInt too big'')
         else truncateAndSubFromPowerOfTwo n x False)
      else if n \<ge> kMaxLengthBits then Inr x
      else
        let neededLength = nat (js_div (n + 29) 30) in
        if length (digits x) < neededLength then Inr x
        else
          let bitsInTopDigit = js_mod n 30 in
          if length (digits x) = neededLength \<and>
             (bitsInTopDigit = 0 \<or>
              js_shr (digitB (digits x) (neededLength - 1)) bitsInTopDigit = 0)
          then Inr x
          else truncateToNBits n x)"

section \<open>Shifts\<close>

text \<open>
  \<open>__toShiftAmount(x)\<close>: the shift count as a number, or \<open>-1\<close> when it has more than one
  digit or exceeds \<open>__kMaxLengthBits\<close>.
\<close>

definition toShiftAmount :: "JSBI \<Rightarrow> int" where
  "toShiftAmount x =
     (if length (digits x) > 1 then - 1
      else
        let v = unsignedDigit (digits x) 0 in
        if v > kMaxLengthBits then - 1 else v)"

definition rightShiftByMaximum :: "bool \<Rightarrow> JSBI" where
  "rightShiftByMaximum sg = (if sg then oneDigit 1 True else zero)"

text \<open>
  \<open>__absoluteAddOne(x, sign, result)\<close>: the carry loop over the digits of \<open>x\<close>, and
  \<open>__setDigitGrow\<close> for a final carry. Each digit is read before the same slot is written, so
  the loop is the same whether \<open>result\<close> is \<open>x\<close> itself or a fresh array of the same length.
\<close>

fun addOne_loop :: "int list \<Rightarrow> int \<Rightarrow> int list \<times> int" where
  "addOne_loop [] carry = ([], carry)"
| "addOne_loop (d # ds) carry =
     (let r = d + carry;
          (rs, c) = addOne_loop ds (js_shr r 30)
      in (toInt32 (js_and r 0x3FFFFFFF) # rs, c))"

definition absoluteAddOne :: "int list \<Rightarrow> bool \<Rightarrow> JSBI" where
  "absoluteAddOne x sg =
     (let (rs, carry) = addOne_loop x 1
      in \<lparr>sign = sg, digits = (if carry \<noteq> 0 then rs @ [toInt32 1] else rs)\<rparr>)"

text \<open>
  \<open>__rightShiftByAbsolute(x, y)\<close>. The digit loop for a non-zero bit shift is the loop of
  \<open>__inplaceRightShift\<close> started at digit \<open>digitShift\<close>; for a zero bit shift the digits from
  \<open>digitShift\<close> on are copied, below an overflow digit 0 when \<open>roundingCanOverflow\<close>.
\<close>

definition rightShiftByAbsolute :: "JSBI \<Rightarrow> JSBI \<Rightarrow> error + JSBI" where
  "rightShiftByAbsolute x y =
     (let len = length (digits x);
          sg = sign x;
          shift = toShiftAmount y
      in
      if shift < 0 then Inr (rightShiftByMaximum sg)
      else
        let digitShift = nat (js_div shift 30);
            bitsShift = js_mod shift 30
        in
        if int len - int digitShift \<le> 0 then Inr (rightShiftByMaximum sg)
        else
          let mustRoundDown =
                (sg \<and>
                 (js_and (digitB (digits x) digitShift) (js_shl 1 bitsShift - 1) \<noteq> 0 \<or>
                  list_ex (\<lambda>d. d \<noteq> 0) (take digitShift (digits x))));
              roundingCanOverflow =
                (mustRoundDown \<and> bitsShift = 0 \<and> js_not (digitB (digits x) (len - 1)) = 0);
              resultLength = len - digitShift + (if roundingCanOverflow then 1 else 0)
          in
          if \<not> allocatable resultLength then Inl (RangeError ''Maximum BigInt size exceeded'')
          else
            let ds =
                  (if bitsShift = 0
                   then map toInt32 (drop digitShift (digits x))
                          @ (if roundingCanOverflow then [0] else [])
                   else shr_loop (drop (digitShift + 1) (digits x)) bitsShift
                          (js_shr (digitB (digits x) digitShift) bitsShift));
                result = (if mustRoundDown then absoluteAddOne ds True
                          else \<lparr>sign = sg, digits = ds\<rparr>)
            in Inr (trim result))"

text \<open>
  \<open>__leftShiftByAbsolute(x, y)\<close>. The digit loop for a non-zero bit shift is the loop of
  \<open>__specialLeftShift\<close>, written above \<open>digitShift\<close> zero digits.
\<close>

definition leftShiftByAbsolute :: "JSBI \<Rightarrow> JSBI \<Rightarrow> error + JSBI" where
  "leftShiftByAbsolute x y =
     (let shift = toShiftAmount y in
      if shift < 0 then Inl (RangeError ''BigInt too big'')
      else
        let digitShift = nat (js_div shift 30);
            bitsShift = js_mod shift 30;
            len = length (digits x);
            grow = (bitsShift \<noteq> 0 \<and> js_shr (digitB (digits x) (len - 1)) (30 - bitsShift) \<noteq> 0);
            resultLength = len + digitShift + (if grow then 1 else 0)
        in
        if \<not> allocatable resultLength then Inl (RangeError ''Maximum BigInt size exceeded'')
        else if bitsShift = 0 then
          Inr (trim \<lparr>sign = sign x,
                     digits = replicate digitShift 0 @ map toInt32 (digits x)\<rparr>)
        else
          let (rs, carry) = shl_loop (digits x) bitsShift 0 in
          if grow then
            Inr (trim \<lparr>sign = sign x,
                       digits = replicate digitShift 0 @ rs @ [toInt32 carry]\<rparr>)
          else if carry \<noteq> 0 then Inl (Error ''implementation bug'')
          else Inr (trim \<lparr>sign = sign x, digits = replicate digitShift 0 @ rs\<rparr>))"

definition leftShift :: "JSBI \<Rightarrow> JSBI \<Rightarrow> error + JSBI" where
  "leftShift x y =
     (if digits y = [] \<or> digits x = [] then Inr x
      else if sign y then rightShiftByAbsolute x y
      else leftShiftByAbsolute x y)"

definition signedRightShift :: "JSBI \<Rightarrow> JSBI \<Rightarrow> error + JSBI" where
  "signedRightShift x y =
     (if digits y = [] \<or> digits x = [] then Inr x
      else if sign y then leftShiftByAbsolute x y
      else rightShiftByAbsolute x y)"

section \<open>Bitwise operations\<close>

text \<open>
  \<open>__absoluteSubOne(x, resultLength)\<close>; \<open>resultLength || length\<close> takes the length of
  \<open>x\<close> when the argument is missing or 0.
\<close>

fun subOne_loop :: "int list \<Rightarrow> int \<Rightarrow> int list \<times> int" where
  "subOne_loop [] borrow = ([], borrow)"
| "subOne_loop (d # ds) borrow =
     (let r = d - borrow;
          (rs, b) = subOne_loop ds (js_and (js_shr r 30) 1)
      in (toInt32 (js_and r 0x3FFFFFFF) # rs, b))"

definition absoluteSubOne :: "int list \<Rightarrow> nat \<Rightarrow> error + int list" where
  "absoluteSubOne x resultLength0 =
     (let len = length x;
          resultLength = (if resultLength0 = 0 then len else resultLength0)
      in
      if \<not> allocatable resultLength then Inl (RangeError ''Maximum BigInt size exceeded'')
      else
        let (rs, borrow) = subOne_loop x 1 in
        if borrow \<noteq> 0 then Inl (Error ''implementation bug'')
        else Inr (rs @ replicate (resultLength - len) 0))"

text \<open>
  \<open>__absoluteAnd\<close>, \<open>__absoluteAndNot\<close>, \<open>__absoluteOr\<close>, \<open>__absoluteXor\<close> on digit
  vectors. The flag says that \<open>result\<close> is the first argument itself (every call that passes
  a \<open>result\<close> passes its first argument); otherwise \<open>result\<close> is allocated. The first
  three swap their arguments so that the first is the longer one. Written in place, the slot
  \<open>i\<close> is read before it is written, and \<open>__setDigit\<close> past the end extends the array.
\<close>

definition absoluteAnd :: "int list \<Rightarrow> int list \<Rightarrow> bool \<Rightarrow> error + int list" where
  "absoluteAnd x y inplace =
     (let numPairs = min (length x) (length y);
          (xl, ys) = (if length x < length y then (y, x) else (x, y));
          ps = map (\<lambda>i. toInt32 (js_and (digitB xl i) (digitB ys i))) [0..<numPairs]
      in
      if inplace then Inr (ps @ replicate (length x - numPairs) 0)
      else if \<not> allocatable numPairs then Inl (RangeError ''Maximum BigInt size exceeded'')
      else Inr ps)"

definition absoluteAndNot :: "int list \<Rightarrow> int list \<Rightarrow> bool \<Rightarrow> error + int list" where
  "absoluteAndNot x y inplace =
     (let numPairs = min (length x) (length y);
          ps = map (\<lambda>i. toInt32 (js_and (digitB x i) (js_not (digitB y i)))) [0..<numPairs];
          ds = ps @ map (\<lambda>i. toInt32 (digitB x i)) [numPairs..<length x]
      in
      if inplace then Inr ds
      else if \<not> allocatable (length x) then Inl (RangeError ''Maximum BigInt size exceeded'')
      else Inr ds)"

definition absoluteOr :: "int list \<Rightarrow> int list \<Rightarrow> bool \<Rightarrow> error + int list" where
  "absoluteOr x y inplace =
     (let numPairs = min (length x) (length y);
          (xl, ys) = (if length x < length y then (y, x) else (x, y));
          ps = map (\<lambda>i. toInt32 (js_or (digitB xl i) (digitB ys i))) [0..<numPairs];
          ds = ps @ map (\<lambda>i. toInt32 (digitB xl i)) [numPairs..<length xl]
      in
      if inplace then Inr ds
      else if \<not> allocatable (length xl) then Inl (RangeError ''Maximum BigInt size exceeded'')
      else Inr ds)"

definition absoluteXor :: "int list \<Rightarrow> int list \<Rightarrow> bool \<Rightarrow> error + int list" where
  "absoluteXor x y inplace =
     (let numPairs = min (length x) (length y);
          (xl, ys) = (if length x < length y then (y, x) else (x, y));
          ps = map (\<lambda>i. toInt32 (js_xor (digitB xl i) (digitB ys i))) [0..<numPairs];
          ds = ps @ map (\<lambda>i. toInt32 (digitB xl i)) [numPairs..<length xl]
      in
      if inplace then Inr ds
      else if \<not> allocatable (length xl) then Inl (RangeError ''Maximum BigInt size exceeded'')
      else Inr ds)"

text \<open>\<open>bitwiseNot\<close>, \<open>bitwiseAnd\<close>, \<open>bitwiseXor\<close>, \<open>bitwiseOr\<close>\<close>

definition bitwiseNot :: "JSBI \<Rightarrow> error + JSBI" where
  "bitwiseNot x =
     (if sign x then
        (case absoluteSubOne (digits x) 0 of
           Inl e \<Rightarrow> Inl e
         | Inr ds \<Rightarrow> Inr (trim \<lparr>sign = False, digits = ds\<rparr>))
      else Inr (absoluteAddOne (digits x) True))"

definition bitwiseAnd :: "JSBI \<Rightarrow> JSBI \<Rightarrow> error + JSBI" where
  "bitwiseAnd x y =
     (if \<not> sign x \<and> \<not> sign y then
        (case absoluteAnd (digits x) (digits y) False of
           Inl e \<Rightarrow> Inl e
         | Inr ds \<Rightarrow> Inr (trim \<lparr>sign = False, digits = ds\<rparr>))
      else if sign x \<and> sign y then
        (let resultLength = max (length (digits x)) (length (digits y)) + 1 in
         case absoluteSubOne (digits x) resultLength of
           Inl e \<Rightarrow> Inl e
         | Inr result \<Rightarrow>
             (case absoluteSubOne (digits y) 0 of
                Inl e \<Rightarrow> Inl e
              | Inr y1 \<Rightarrow>
                  (case absoluteOr result y1 True of
                     Inl e \<Rightarrow> Inl e
                   | Inr result' \<Rightarrow> Inr (trim (absoluteAddOne result' True)))))
      else
        (let (x', y') = (if sign x then (y, x) else (x, y)) in
         case absoluteSubOne (digits y') 0 of
           Inl e \<Rightarrow> Inl e
         | Inr y1 \<Rightarrow>
             (case absoluteAndNot (digits x') y1 False of
                Inl e \<Rightarrow> Inl e
              | Inr ds \<Rightarrow> Inr (trim \<lparr>sign = False, digits = ds\<rparr>))))"

definition bitwiseXor :: "JSBI \<Rightarrow> JSBI \<Rightarrow> error + JSBI" where
  "bitwiseXor x y =
     (if \<not> sign x \<and> \<not> sign y then
        (case absoluteXor (digits x) (digits y) False of
           Inl e \<Rightarrow> Inl e
         | Inr ds \<Rightarrow> Inr (trim \<lparr>sign = False, digits = ds\<rparr>))
      else if sign x \<and> sign y then
        (let resultLength = max (length (digits x)) (length (digits y)) in
         case absoluteSubOne (digits x) resultLength of
           Inl e \<Rightarrow> Inl e
         | Inr result \<Rightarrow>
             (case absoluteSubOne (digits y) 0 of
                Inl e \<Rightarrow> Inl e
              | Inr y1 \<Rightarrow>
                  (case absoluteXor result y1 True of
                     Inl e \<Rightarrow> Inl e
                   | Inr ds \<Rightarrow> Inr (trim \<lparr>sign = False, digits = ds\<rparr>))))
      else
        (let resultLength = max (length (digits x)) (length (digits y)) + 1;
             (x', y') = (if sign x then (y, x) else (x, y))
         in
         case absoluteSubOne (digits y') resultLength of
           Inl e \<Rightarrow> Inl e
         | Inr result \<Rightarrow>
             (case absoluteXor result (digits x') True of
                Inl e \<Rightarrow> Inl e
              | Inr result' \<Rightarrow> Inr (trim (absoluteAddOne result' True)))))"

definition bitwiseOr :: "JSBI \<Rightarrow> JSBI \<Rightarrow> error + JSBI" where
  "bitwiseOr x y =
     (let resultLength = max (length (digits x)) (length (digits y)) in
      if \<not> sign x \<and> \<not> sign y then
        (case absoluteOr (digits x) (digits y) False of
           Inl e \<Rightarrow> Inl e
         | Inr ds \<Rightarrow> Inr (trim \<lparr>sign = False, digits = ds\<rparr>))
      else if sign x \<and> sign y then
        (case absoluteSubOne (digits x) resultLength of
           Inl e \<Rightarrow> Inl e
         | Inr result \<Rightarrow>
             (case absoluteSubOne (digits y) 0 of
                Inl e \<Rightarrow> Inl e
              | Inr y1 \<Rightarrow>
                  (case absoluteAnd result y1 True of
                     Inl e \<Rightarrow> Inl e
                   | Inr result' \<Rightarrow> Inr (trim (absoluteAddOne result' True)))))
      else
        (let (x', y') = (if sign x then (y, x) else (x, y)) in
         case absoluteSubOne (digits y') resultLength of
           Inl e \<Rightarrow> Inl e
         | Inr result \<Rightarrow>
             (case absoluteAndNot result (digits x') True of
                Inl e \<Rightarrow> Inl e
              | Inr result' \<Rightarrow> Inr (trim (absoluteAddOne result' True)))))"

section \<open>Representation invariant and value\<close>

text \<open>
  The invariant of the data model: every digit lies in \<open>[0, 2^30)\<close>, the top digit of a
  non-empty digit vector is non-zero, and the empty vector has sign false. A value that a
  constructor can hold has at most \<open>kMaxLength\<close> digits.
\<close>

definition digits_in_range :: "int list \<Rightarrow> bool" where
  "digits_in_range ds = (\<forall>d \<in> set ds. 0 \<le> d \<and> d < 1073741824)"

definition invariant :: "JSBI \<Rightarrow> bool" where
  "invariant x =
     (digits_in_range (digits x) \<and>
      (digits x \<noteq> [] \<longrightarrow> last (digits x) \<noteq> 0) \<and>
      (digits x = [] \<longrightarrow> \<not> sign x))"

definition wellformed :: "JSBI \<Rightarrow> bool" where
  "wellformed x = (invariant x \<and> allocatable (length (digits x)))"

text \<open>The integer a digit vector and a BigInt stand for.\<close>

fun mag :: "int list \<Rightarrow> int" where
  "mag [] = 0"
| "mag (d # ds) = d + 1073741824 * mag ds"

definition val :: "JSBI \<Rightarrow> int" where
  "val x = (if sign x then - mag (digits x) else mag (digits x))"

text \<open>The number of bits of a truncation to \<open>n\<close> bits that fall in its top digit.\<close>

definition topBits :: "int \<Rightarrow> nat" where
  "topBits n = (if n mod 30 = 0 then 30 else nat (n mod 30))"

section \<open>Arithmetic of digits and digit vectors\<close>

lemma toInt32_id: "- 2147483648 \<le> v \<Longrightarrow> v < 2147483648 \<Longrightarrow> toInt32 v = v"
  unfolding toInt32_def by (rule signed_take_bit_int_eq_self) simp_all

lemma toUint32_id: "0 \<le> v \<Longrightarrow> v < 4294967296 \<Longrightarrow> toUint32 v = v"
  unfolding toUint32_def by (rule take_bit_int_eq_self) simp_all

lemma toUint32_mod: "toUint32 v = v mod 4294967296"
  by (simp add: toUint32_def take_bit_eq_mod)

lemma mask30: "(1073741823::int) = mask 30"
  by (simp add: mask_eq_exp_minus_1)

lemma mask15: "(32767::int) = mask 15"
  by (simp add: mask_eq_exp_minus_1)

lemma js_and_mask30: "js_and r 0x3FFFFFFF = r mod 1073741824"
proof -
  have "js_and r 0x3FFFFFFF = take_bit 30 (signed_take_bit 31 r)"
  proof -
    have "toInt32 0x3FFFFFFF = mask 30" by (simp add: toInt32_id mask_eq_exp_minus_1)
    then show ?thesis by (simp add: js_and_def take_bit_eq_mask toInt32_def)
  qed
  also have "\<dots> = take_bit 30 r"
    by (rule take_bit_signed_take_bit) simp
  finally show ?thesis by (simp add: take_bit_eq_mod)
qed

lemma js_and_mask15: "js_and r 0x7FFF = r mod 32768"
proof -
  have "js_and r 0x7FFF = take_bit 15 (signed_take_bit 31 r)"
  proof -
    have "toInt32 0x7FFF = mask 15" by (simp add: toInt32_id mask_eq_exp_minus_1)
    then show ?thesis by (simp add: js_and_def take_bit_eq_mask toInt32_def)
  qed
  also have "\<dots> = take_bit 15 r"
    by (rule take_bit_signed_take_bit) simp
  finally show ?thesis by (simp add: take_bit_eq_mod)
qed

lemma js_and_1: "js_and r 1 = r mod 2"
proof -
  have "js_and r 1 = take_bit 1 (signed_take_bit 31 r)"
    unfolding js_and_def toInt32_def
    by (simp add: signed_take_bit_int_eq_self take_bit_eq_mask mask_eq_exp_minus_1)
  also have "\<dots> = take_bit 1 r"
    by (rule take_bit_signed_take_bit) simp
  finally show ?thesis by (simp add: take_bit_eq_mod)
qed

lemma js_shr_div: "0 \<le> k \<Longrightarrow> k < 32 \<Longrightarrow> js_shr r k = (r mod 4294967296) div 2 ^ nat k"
  by (simp add: js_shr_def toUint32_mod drop_bit_eq_div)

lemma js_shr_30: "js_shr r 30 = (r mod 4294967296) div 1073741824"
  using js_shr_div [of 30 r] by simp

lemma js_shr_15: "js_shr r 15 = (r mod 4294967296) div 32768"
  using js_shr_div [of 15 r] by simp

lemma js_shr_0: "js_shr r 0 = r mod 4294967296"
  using js_shr_div [of 0 r] by simp

lemma borrow_bit: "- 1073741824 \<le> r \<Longrightarrow> r < 1073741824 \<Longrightarrow>
  js_and (js_shr r 30) 1 = (if r < 0 then 1 else 0)"
proof -
  assume a: "- 1073741824 \<le> r" "r < 1073741824"
  show ?thesis
  proof (cases "r < 0")
    case True
    have "(r + 4294967296) mod 4294967296 = r + 4294967296" using a True
      by (intro mod_pos_pos_trivial) auto
    then have "r mod 4294967296 = r + 4294967296" by simp
    then have "(r mod 4294967296) div 1073741824 = 3" using a True by simp
    then show ?thesis using True by (simp add: js_and_1 js_shr_30)
  next
    case False
    then have "r mod 4294967296 = r" using a by simp
    then have "(r mod 4294967296) div 1073741824 = 0" using a False by simp
    then show ?thesis using False by (simp add: js_and_1 js_shr_30)
  qed
qed

lemma pow30: "(2::int) ^ (30 * k) = 1073741824 ^ k"
  by (simp add: power_mult)

lemma mag_append: "mag (xs @ ys) = mag xs + 1073741824 ^ length xs * mag ys"
  by (induction xs) (simp_all add: algebra_simps)

lemma mag_replicate0 [simp]: "mag (replicate n 0) = 0"
  by (induction n) simp_all

lemma digits_in_range_simps [simp]:
  "digits_in_range []"
  "digits_in_range (d # ds) \<longleftrightarrow> 0 \<le> d \<and> d < 1073741824 \<and> digits_in_range ds"
  "digits_in_range (xs @ ys) \<longleftrightarrow> digits_in_range xs \<and> digits_in_range ys"
  by (auto simp: digits_in_range_def)

lemma digits_in_range_replicate0 [simp]: "digits_in_range (replicate n 0)"
  by (simp add: digits_in_range_def)

lemma digits_in_range_take: "digits_in_range ds \<Longrightarrow> digits_in_range (take k ds)"
  by (auto simp: digits_in_range_def dest: in_set_takeD)

lemma digits_in_range_drop: "digits_in_range ds \<Longrightarrow> digits_in_range (drop k ds)"
  by (auto simp: digits_in_range_def dest: in_set_dropD)

lemma digits_in_range_nth: "digits_in_range ds \<Longrightarrow> i < length ds \<Longrightarrow> 0 \<le> ds ! i \<and> ds ! i < 1073741824"
  by (simp add: digits_in_range_def)

lemma digits_in_range_butlast: "digits_in_range ds \<Longrightarrow> digits_in_range (butlast ds)"
  by (auto simp: digits_in_range_def dest: in_set_butlastD)

lemma mag_bounds: "digits_in_range ds \<Longrightarrow> 0 \<le> mag ds \<and> mag ds < 1073741824 ^ length ds"
proof (induction ds)
  case Nil
  then show ?case by simp
next
  case (Cons d ds)
  then have ih: "0 \<le> mag ds" "mag ds + 1 \<le> 1073741824 ^ length ds" and d: "0 \<le> d" "d < 1073741824"
    by simp_all
  have "1073741824 * (mag ds + 1) \<le> 1073741824 * 1073741824 ^ length ds"
    using ih(2) by (intro mult_left_mono) simp_all
  then show ?case using ih(1) d by (simp add: algebra_simps)
qed

lemma mag_nonneg: "digits_in_range ds \<Longrightarrow> 0 \<le> mag ds"
  using mag_bounds by blast

lemma mag_less: "digits_in_range ds \<Longrightarrow> mag ds < 1073741824 ^ length ds"
  using mag_bounds by blast

lemma mag_eq_0_iff: "digits_in_range ds \<Longrightarrow> mag ds = 0 \<longleftrightarrow> (\<forall>d \<in> set ds. d = 0)"
proof (induction ds)
  case Nil
  then show ?case by simp
next
  case (Cons d ds)
  then have "0 \<le> mag ds" "0 \<le> d" by (simp_all add: mag_nonneg)
  with Cons show ?case by auto
qed

lemma mag_take: "digits_in_range ds \<Longrightarrow> mag (take k ds) = mag ds mod 1073741824 ^ k"
proof (cases "k \<le> length ds")
  case True
  assume r: "digits_in_range ds"
  have "mag ds = mag (take k ds) + 1073741824 ^ k * mag (drop k ds)"
    using mag_append [of "take k ds" "drop k ds"] True by simp
  moreover have "0 \<le> mag (take k ds)" "mag (take k ds) < 1073741824 ^ k"
    using mag_bounds [OF digits_in_range_take [OF r, of k]] True by simp_all
  ultimately show ?thesis by (simp add: mod_pos_pos_trivial)
next
  case False
  assume r: "digits_in_range ds"
  have "mag ds < 1073741824 ^ length ds" using r by (rule mag_less)
  also have "\<dots> \<le> 1073741824 ^ k" using False by (intro power_increasing) simp_all
  finally show ?thesis using False mag_nonneg [OF r] by (simp add: mod_pos_pos_trivial)
qed

lemma mag_snoc: "mag (xs @ [d]) = mag xs + 1073741824 ^ length xs * d"
  by (simp add: mag_append)

lemma trim_loop_mag: "mag (trim_loop xs) = mag xs"
proof (induction xs rule: trim_loop.induct)
  case (1 xs)
  show ?case
  proof (cases "xs \<noteq> [] \<and> last xs = 0")
    case True
    then have "xs = butlast xs @ [0]" by (metis append_butlast_last_id)
    then have "mag xs = mag (butlast xs)" by (metis mag_snoc mult_zero_right add.right_neutral)
    with 1 True show ?thesis by (subst trim_loop.simps) simp
  next
    case False
    then show ?thesis by (subst trim_loop.simps) auto
  qed
qed

lemma trim_loop_range: "digits_in_range xs \<Longrightarrow> digits_in_range (trim_loop xs)"
proof (induction xs rule: trim_loop.induct)
  case (1 xs)
  show ?case
  proof (cases "xs \<noteq> [] \<and> last xs = 0")
    case True
    with 1 show ?thesis by (subst trim_loop.simps) (simp add: digits_in_range_butlast)
  next
    case False
    with 1 show ?thesis by (subst trim_loop.simps) auto
  qed
qed

lemma trim_loop_last: "trim_loop xs \<noteq> [] \<Longrightarrow> last (trim_loop xs) \<noteq> 0"
proof (induction xs rule: trim_loop.induct)
  case (1 xs)
  show ?case
  proof (cases "xs \<noteq> [] \<and> last xs = 0")
    case True
    with 1 show ?thesis by (subst trim_loop.simps) (simp add: trim_loop.simps [of xs])
  next
    case False
    with 1 show ?thesis by (subst trim_loop.simps) (auto simp: trim_loop.simps [of xs])
  qed
qed

lemma trim_loop_length: "length (trim_loop xs) \<le> length xs"
proof (induction xs rule: trim_loop.induct)
  case (1 xs)
  show ?case
  proof (cases "xs \<noteq> [] \<and> last xs = 0")
    case True
    with 1 show ?thesis by (subst trim_loop.simps) (simp add: le_diff_conv)
  next
    case False
    then show ?thesis by (subst trim_loop.simps) auto
  qed
qed

lemma trim_loop_id: "xs = [] \<or> last xs \<noteq> 0 \<Longrightarrow> trim_loop xs = xs"
  by (subst trim_loop.simps) auto

lemma invariant_trim: "digits_in_range (digits x) \<Longrightarrow> invariant (trim x)"
  by (simp add: invariant_def trim_def Let_def trim_loop_range trim_loop_last)

lemma mag_trim: "mag (digits (trim x)) = mag (digits x)"
  by (simp add: trim_def Let_def trim_loop_mag)

lemma val_trim: "val (trim x) = val x"
proof -
  have "trim_loop (digits x) = [] \<Longrightarrow> mag (digits x) = 0"
    using trim_loop_mag [of "digits x"] by simp
  then show ?thesis
    by (auto simp: val_def trim_def Let_def trim_loop_mag)
qed

lemma length_trim: "length (digits (trim x)) \<le> length (digits x)"
  by (simp add: trim_def Let_def trim_loop_length)

lemma trim_id: "invariant x \<Longrightarrow> trim x = x"
  by (cases x) (auto simp: invariant_def trim_def Let_def trim_loop_id)

lemma wellformed_trim:
  "digits_in_range (digits x) \<Longrightarrow> allocatable (length (digits x)) \<Longrightarrow> wellformed (trim x)"
  using length_trim [of x] by (simp add: wellformed_def invariant_trim allocatable_def)

lemma invariant_mag_lower:
  assumes "invariant x" "digits x \<noteq> []"
  shows "1073741824 ^ (length (digits x) - 1) \<le> mag (digits x)"
proof -
  define P :: int where "P = 1073741824 ^ (length (digits x) - 1)"
  have ds: "digits x = butlast (digits x) @ [last (digits x)]" using assms by simp
  have r: "digits_in_range (digits x)" and l: "last (digits x) \<noteq> 0"
    using assms by (simp_all add: invariant_def)
  have "0 \<le> last (digits x)" using r assms(2) by (simp add: digits_in_range_def)
  then have l1: "1 \<le> last (digits x)" using l by simp
  have m: "mag (digits x) = mag (butlast (digits x)) + P * last (digits x)"
    unfolding P_def by (subst ds) (simp add: mag_snoc)
  have b: "0 \<le> mag (butlast (digits x))"
    using r by (intro mag_nonneg digits_in_range_butlast)
  have "0 \<le> P" by (simp add: P_def)
  then have "P * 1 \<le> P * last (digits x)"
    using l1 by (intro mult_left_mono) simp_all
  then have "P \<le> P * last (digits x)" by simp
  with m b show ?thesis unfolding P_def by linarith
qed

lemma toInt32_nonneg: "0 \<le> v \<Longrightarrow> v < 2147483648 \<Longrightarrow> toInt32 v = v"
  by (rule toInt32_id) auto

lemma js_div_nonneg: "0 \<le> a \<Longrightarrow> 0 < b \<Longrightarrow> a < 2147483648 \<Longrightarrow> js_div a b = a div b"
proof -
  assume a: "0 \<le> a" "0 < b" "a < 2147483648"
  have "a div b \<le> a div 1" using a by (intro zdiv_mono2) auto
  moreover have "0 \<le> a div b" using a by (simp add: pos_imp_zdiv_nonneg_iff)
  ultimately have "toInt32 (a div b) = a div b" using a by (intro toInt32_nonneg) auto
  moreover have "sgn a * sgn b * (\<bar>a\<bar> div \<bar>b\<bar>) = a div b"
    using a by (cases "a = 0") (simp_all add: sgn_if)
  ultimately show ?thesis unfolding js_div_def using a(2) by simp
qed

lemma js_mod_nonneg: "0 \<le> a \<Longrightarrow> 0 < b \<Longrightarrow> a < 2147483648 \<Longrightarrow> js_mod a b = a mod b"
proof -
  assume a: "0 \<le> a" "0 < b" "a < 2147483648"
  have "a mod b \<le> a" using a by (simp add: zmod_le_nonneg_dividend)
  moreover have "0 \<le> a mod b" using a by simp
  ultimately have "toInt32 (a mod b) = a mod b" using a by (intro toInt32_nonneg) auto
  moreover have "sgn a * (\<bar>a\<bar> mod \<bar>b\<bar>) = a mod b"
    using a by (cases "a = 0") (simp_all add: sgn_if)
  ultimately show ?thesis unfolding js_mod_def using a(2) by simp
qed

lemma js_shr_nonneg: "0 \<le> d \<Longrightarrow> d < 4294967296 \<Longrightarrow> 0 \<le> k \<Longrightarrow> k < 32 \<Longrightarrow>
  js_shr d k = d div 2 ^ nat k"
  by (simp add: js_shr_div)

lemma toInt32_take_bit32: "take_bit 32 (toInt32 v) = take_bit 32 v"
  unfolding toInt32_def by (rule take_bit_signed_take_bit) simp

lemma shl_shr_drop:
  assumes "1 \<le> k" "k \<le> 29"
  shows "js_shr (js_shl d (32 - k)) (32 - k) = d mod 2 ^ nat k"
proof -
  have m: "(32 - k) mod 32 = 32 - k" using assms by (intro mod_pos_pos_trivial) auto
  have n: "nat (32 - k) \<le> 32" "32 - nat (32 - k) = nat k" using assms by auto
  have "js_shr (js_shl d (32 - k)) (32 - k)
      = drop_bit (nat (32 - k)) (take_bit 32 (push_bit (nat (32 - k)) (toInt32 d)))"
    unfolding js_shr_def js_shl_def m toUint32_def by (simp only: toInt32_take_bit32)
  also have "\<dots> = take_bit (nat k) (toInt32 d)"
    by (simp add: take_bit_push_bit drop_bit_push_bit n)
  also have "\<dots> = take_bit (nat k) d"
    unfolding toInt32_def using assms by (intro take_bit_signed_take_bit) auto
  finally show ?thesis by (simp add: take_bit_eq_mod)
qed

lemma js_shl_1: "0 \<le> k \<Longrightarrow> k \<le> 30 \<Longrightarrow> js_shl 1 k = 2 ^ nat k"
proof -
  assume a: "0 \<le> k" "k \<le> 30"
  have "(2::int) ^ nat k \<le> 2 ^ 30" using a by (intro power_increasing) auto
  then have "toInt32 (2 ^ nat k) = 2 ^ nat k" by (intro toInt32_nonneg) auto
  then show ?thesis using a by (simp add: js_shl_def toInt32_id push_bit_eq_mult)
qed

lemma js_and_low_mask:
  assumes "k \<le> 30"
  shows "js_and v (2 ^ k - 1) = v mod 2 ^ k"
proof -
  have "(2::int) ^ k \<le> 2 ^ 30" using assms by (intro power_increasing) auto
  then have "toInt32 (2 ^ k - 1) = mask k"
    by (subst toInt32_nonneg) (auto simp: mask_eq_exp_minus_1)
  then have "js_and v (2 ^ k - 1) = take_bit k (signed_take_bit 31 v)"
    by (simp add: js_and_def take_bit_eq_mask toInt32_def)
  also have "\<dots> = take_bit k v" using assms by (intro take_bit_signed_take_bit) auto
  finally show ?thesis by (simp add: take_bit_eq_mod)
qed

lemma js_and_pow2_test:
  assumes "0 \<le> d" "d < 1073741824" "j < 30"
  shows "js_and d (2 ^ j) = 2 ^ j \<longleftrightarrow> 2 ^ j \<le> d mod 2 ^ Suc j"
proof -
  have p: "(2::int) ^ j < 2 ^ 30" using assms by (intro power_strict_increasing) auto
  have "toInt32 (2 ^ j) = 2 ^ j" using p by (intro toInt32_nonneg) auto
  then have "js_and d (2 ^ j) = d AND 2 ^ j"
    using assms by (simp add: js_and_def toInt32_nonneg)
  also have "\<dots> = of_bool (bit d j) * 2 ^ j"
  proof (cases "bit d j")
    case True
    have "d AND 2 ^ j = 2 ^ j"
      by (rule bit_eqI) (use True in \<open>auto simp: bit_and_iff bit_exp_iff\<close>)
    with True show ?thesis by simp
  next
    case False
    then show ?thesis by (simp add: and_exp_eq_0_iff_not_bit)
  qed
  finally have e: "js_and d (2 ^ j) = of_bool (bit d j) * 2 ^ j" .
  have b: "bit d j \<longleftrightarrow> 2 ^ j \<le> d mod 2 ^ Suc j"
  proof -
    have "d mod 2 ^ Suc j = take_bit (Suc j) d" by (simp add: take_bit_eq_mod)
    also have "\<dots> = take_bit j d + 2 ^ j * of_bool (bit d j)"
      by (simp add: take_bit_Suc_from_most)
    finally have "d mod 2 ^ Suc j = take_bit j d + 2 ^ j * of_bool (bit d j)" .
    moreover have "0 \<le> take_bit j d" by simp
    moreover have "take_bit j d < 2 ^ j" by (rule take_bit_int_less_exp)
    ultimately show ?thesis by (cases "bit d j") (simp_all add: not_le)
  qed
  show ?thesis using e b by (cases "bit d j") auto
qed

lemma mod_split:
  fixes a :: int
  assumes "0 \<le> a" "a < P" "0 < q"
  shows "(a + P * c) mod (P * q) = a + P * (c mod q)"
proof -
  have P: "0 < P" using assms by simp
  have d: "(a + P * c) div P = c" using assms P by (simp add: div_pos_pos_trivial)
  have m: "(a + P * c) mod P = a" using assms by (simp add: mod_pos_pos_trivial)
  show ?thesis using zmod_zmult2_eq [of q "a + P * c" P] P assms(3) d m by simp
qed

lemma mag_split_at:
  assumes "i < length xs"
  shows "mag xs = mag (take i xs) + 1073741824 ^ i * (xs ! i + 1073741824 * mag (drop (Suc i) xs))"
proof -
  have "xs = take i xs @ (xs ! i # drop (Suc i) xs)" using assms by (simp add: id_take_nth_drop)
  then have "mag xs = mag (take i xs @ (xs ! i # drop (Suc i) xs))" by simp
  also have "\<dots> = mag (take i xs) + 1073741824 ^ i * (xs ! i + 1073741824 * mag (drop (Suc i) xs))"
    using assms by (simp add: mag_append)
  finally show ?thesis .
qed

lemma needed_digits:
  assumes "1 \<le> n" "n < 1073741824"
  shows "js_div (n + 29) 30 = (n + 29) div 30" "js_mod n 30 = n mod 30"
    "js_mod (n - 1) 30 = (n - 1) mod 30"
  using assms by (simp_all add: js_div_nonneg js_mod_nonneg)

lemma topBits_range: "1 \<le> topBits n" "topBits n \<le> 30"
proof -
  have "0 \<le> n mod 30" "n mod 30 < 30" by simp_all
  then show "1 \<le> topBits n" "topBits n \<le> 30" by (auto simp: topBits_def)
qed

lemma div30_up:
  fixes n :: int
  shows "(n + 29) div 30 = (if n mod 30 = 0 then n div 30 else n div 30 + 1)"
proof -
  define q where "q = n div 30"
  define r where "r = n mod 30"
  have n: "n = r + q * 30" by (simp add: q_def r_def)
  have r: "0 \<le> r" "r < 30" by (simp_all add: r_def)
  show ?thesis
  proof (cases "r = 0")
    case True
    have "(n + 29) div 30 = (29 + q * 30) div 30" using n True by simp
    also have "\<dots> = q" by simp
    finally show ?thesis using True by (simp add: q_def r_def)
  next
    case False
    have "n + 29 = (r - 1) + (q + 1) * 30" using n by simp
    then have "(n + 29) div 30 = ((r - 1) + (q + 1) * 30) div 30" by simp
    also have "\<dots> = q + 1 + (r - 1) div 30" by (subst div_mult_self1) simp_all
    also have "(r - 1) div 30 = 0" using r False by (intro div_pos_pos_trivial) auto
    finally show ?thesis using False by (simp add: q_def r_def)
  qed
qed

lemma n_split_int:
  fixes n :: int
  shows "n = 30 * ((n + 29) div 30 - 1) + (if n mod 30 = 0 then 30 else n mod 30)"
proof -
  have "n = 30 * (n div 30) + n mod 30" by simp
  then show ?thesis unfolding div30_up by (auto simp: algebra_simps)
qed

lemma n_split:
  assumes "1 \<le> n"
  shows "nat n = 30 * (nat ((n + 29) div 30) - 1) + topBits n"
proof -
  have t: "int (topBits n) = (if n mod 30 = 0 then 30 else n mod 30)"
    by (simp add: topBits_def)
  have l: "1 \<le> (n + 29) div 30" using assms by linarith
  then have "int (nat ((n + 29) div 30) - 1) = (n + 29) div 30 - 1" by simp
  then have "int (30 * (nat ((n + 29) div 30) - 1) + topBits n) = n"
    using n_split_int [of n] t by simp
  then show ?thesis by linarith
qed

lemma pow_n_split:
  assumes "1 \<le> n"
  shows "(2::int) ^ nat n = 1073741824 ^ (nat ((n + 29) div 30) - 1) * 2 ^ topBits n"
  by (subst n_split [OF assms]) (simp add: power_add pow30)

lemma needed_pos: "1 \<le> n \<Longrightarrow> 1 \<le> nat ((n + 29) div 30)"
  by linarith

lemma top_digit_mod:
  assumes "k \<le> 30"
  shows "(t + 1073741824 * h) mod 2 ^ k = t mod (2 ^ k :: int)"
proof -
  have "(2::int) ^ k dvd 2 ^ 30" using assms by (intro le_imp_power_dvd)
  then have "(2::int) ^ k dvd 1073741824 * h" by simp
  then show ?thesis by (simp add: mod_add_right_eq [symmetric] mod_eq_0_iff_dvd)
qed

lemma map_digitB_take:
  assumes "m \<le> length xs" "digits_in_range xs"
  shows "map (\<lambda>i. toInt32 (digitB xs i)) [0..<m] = take m xs"
proof (rule nth_equalityI)
  show "length (map (\<lambda>i. toInt32 (digitB xs i)) [0..<m]) = length (take m xs)"
    using assms by simp
next
  fix i assume "i < length (map (\<lambda>i. toInt32 (digitB xs i)) [0..<m])"
  then have i: "i < m" by simp
  then have "0 \<le> xs ! i" "xs ! i < 1073741824"
    using assms digits_in_range_nth [of xs i] by auto
  then show "map (\<lambda>i. toInt32 (digitB xs i)) [0..<m] ! i = take m xs ! i"
    using i assms by (simp add: digitB_def toInt32_nonneg)
qed

lemma sign_trim: "sign (trim y) = (sign y \<and> digits (trim y) \<noteq> [])"
  by (simp add: trim_def Let_def)

lemma allocatable_mono: "allocatable m \<Longrightarrow> l \<le> m \<Longrightarrow> allocatable l"
  by (simp add: allocatable_def)

lemma mod_pow_range:
  fixes t :: int
  assumes "k \<le> 30"
  shows "0 \<le> t mod 2 ^ k" "t mod 2 ^ k < 1073741824"
proof -
  have "(2::int) ^ k \<le> 1073741824" using power_increasing [of k 30 "2::int"] assms by simp
  moreover have "t mod 2 ^ k < 2 ^ k" by (rule pos_mod_bound) simp
  ultimately show "t mod 2 ^ k < 1073741824" by linarith
  show "0 \<le> t mod 2 ^ k" by simp
qed

lemma truncated_msd:
  assumes "1 \<le> n" "n < 1073741824" "0 \<le> t" "t < 1073741824"
  shows "toInt32 (if n mod 30 \<noteq> 0
                  then js_shr (js_shl t (32 - n mod 30)) (32 - n mod 30)
                  else t) = t mod 2 ^ topBits n"
proof -
  have k: "topBits n \<le> 30" by (rule topBits_range)
  have id: "toInt32 (t mod 2 ^ topBits n) = t mod 2 ^ topBits n"
    using mod_pow_range [OF k, of t] by (intro toInt32_nonneg) auto
  show ?thesis
  proof (cases "n mod 30 = 0")
    case True
    then have "t mod 2 ^ topBits n = t" using assms by (simp add: topBits_def)
    then show ?thesis using True assms id by simp
  next
    case False
    have "0 \<le> n mod 30" "n mod 30 < 30" by simp_all
    then have r: "1 \<le> n mod 30" "n mod 30 \<le> 29" using False by auto
    have "js_shr (js_shl t (32 - n mod 30)) (32 - n mod 30) = t mod 2 ^ nat (n mod 30)"
      using r by (rule shl_shr_drop)
    then show ?thesis using False assms id by (simp add: topBits_def)
  qed
qed

lemma mag_mod_pow_n:
  assumes r: "digits_in_range xs" and n: "1 \<le> n"
    and L: "nat ((n + 29) div 30) \<le> length xs"
  shows "mag xs mod 2 ^ nat n =
         mag (take (nat ((n + 29) div 30) - 1) xs)
           + 1073741824 ^ (nat ((n + 29) div 30) - 1)
             * (xs ! (nat ((n + 29) div 30) - 1) mod 2 ^ topBits n)"
proof -
  define L where "L = nat ((n + 29) div 30)"
  have L1: "1 \<le> L" unfolding L_def using n by (rule needed_pos)
  then have i: "L - 1 < length xs" using L by (simp add: L_def)
  have s: "Suc (L - 1) = L" using L1 by simp
  have lo: "0 \<le> mag (take (L - 1) xs)" "mag (take (L - 1) xs) < 1073741824 ^ (L - 1)"
    using mag_bounds [OF digits_in_range_take [OF r, of "L - 1"]] i by simp_all
  have a: "mag xs = mag (take (L - 1) xs)
      + 1073741824 ^ (L - 1) * (xs ! (L - 1) + 1073741824 * mag (drop L xs))"
    using mag_split_at [OF i] by (simp only: s)
  have b: "(2::int) ^ nat n = 1073741824 ^ (L - 1) * 2 ^ topBits n"
    using pow_n_split [OF n] by (simp only: L_def)
  have "mag xs mod 2 ^ nat n
      = (mag (take (L - 1) xs) + 1073741824 ^ (L - 1) * (xs ! (L - 1) + 1073741824 * mag (drop L xs)))
          mod (1073741824 ^ (L - 1) * 2 ^ topBits n)"
    unfolding b by (subst a) (rule refl)
  also have "\<dots> = mag (take (L - 1) xs)
      + 1073741824 ^ (L - 1) * ((xs ! (L - 1) + 1073741824 * mag (drop L xs)) mod 2 ^ topBits n)"
    using lo by (intro mod_split) simp_all
  also have "(xs ! (L - 1) + 1073741824 * mag (drop L xs)) mod 2 ^ topBits n
      = xs ! (L - 1) mod 2 ^ topBits n"
    by (rule top_digit_mod) (rule topBits_range)
  finally show ?thesis unfolding L_def .
qed

lemma truncateToNBits_spec:
  assumes r: "digits_in_range (digits x)" and n: "1 \<le> n" "n < 1073741824"
    and L: "nat ((n + 29) div 30) \<le> length (digits x)"
    and al: "allocatable (length (digits x))"
  shows "\<exists>r. truncateToNBits n x = Inr r \<and> invariant r \<and>
             mag (digits r) = mag (digits x) mod 2 ^ nat n \<and>
             sign r = (sign x \<and> digits r \<noteq> []) \<and>
             length (digits r) \<le> nat ((n + 29) div 30)"
proof -
  define L where "L = nat ((n + 29) div 30)"
  define xs where "xs = digits x"
  define t where "t = xs ! (L - 1)"
  have L1: "1 \<le> L" unfolding L_def using n(1) by (rule needed_pos)
  then have i: "L - 1 < length xs" using L by (simp add: L_def xs_def)
  have t: "0 \<le> t" "t < 1073741824"
    using digits_in_range_nth [of xs "L - 1"] r i by (simp_all add: t_def xs_def)
  have alL: "allocatable L" using al L unfolding allocatable_def L_def by linarith
  define y where "y = \<lparr>sign = sign x, digits = take (L - 1) xs @ [t mod 2 ^ topBits n]\<rparr>"
  have low: "map (\<lambda>i. toInt32 (digitB xs i)) [0..<L - 1] = take (L - 1) xs"
    using i r by (intro map_digitB_take) (simp_all add: xs_def)
  have dB: "digitB xs (L - 1) = t" using i by (simp add: digitB_def t_def)
  have res: "truncateToNBits n x = Inr (trim y)"
  proof (cases "n mod 30 = 0")
    case True
    then show ?thesis
      using alL low truncated_msd [OF n t]
      by (simp add: truncateToNBits_def needed_digits [OF n] L_def [symmetric] xs_def [symmetric]
          Let_def dB y_def del: One_nat_def)
  next
    case False
    then show ?thesis
      using alL low truncated_msd [OF n t]
      by (simp add: truncateToNBits_def needed_digits [OF n] L_def [symmetric] xs_def [symmetric]
          Let_def dB y_def del: One_nat_def)
  qed
  have k: "topBits n \<le> 30" by (rule topBits_range)
  have ry: "digits_in_range (digits y)"
    using r mod_pow_range [OF k, of t] by (simp add: y_def xs_def digits_in_range_take)
  have my: "mag (digits y) = mag xs mod 2 ^ nat n"
    using mag_mod_pow_n [OF r [unfolded xs_def [symmetric]] n(1)] L i
    by (simp add: y_def mag_snoc L_def [symmetric] xs_def [symmetric] t_def)
  have ly: "length (digits y) = L" using i L1 by (simp add: y_def)
  have sy: "sign y = sign x" by (simp add: y_def)
  show ?thesis
  proof (intro exI conjI)
    show "truncateToNBits n x = Inr (trim y)" by (rule res)
    show "invariant (trim y)" by (rule invariant_trim [OF ry])
    show "mag (digits (trim y)) = mag (digits x) mod 2 ^ nat n"
      using my by (simp only: mag_trim xs_def)
    show "sign (trim y) = (sign x \<and> digits (trim y) \<noteq> [])"
      using sign_trim [of y] by (simp only: sy)
    show "length (digits (trim y)) \<le> nat ((n + 29) div 30)"
      using length_trim [of y] ly by (simp only: L_def)
  qed
qed

lemma negate_step:
  assumes d: "0 \<le> d" "d < 1073741824" and b: "b = 0 \<or> b = 1"
  defines "r \<equiv> - d - b"
  shows "toInt32 (js_and r 0x3FFFFFFF) = r mod 1073741824"
    and "js_and (js_shr r 30) 1 = (if r < 0 then 1 else 0)"
    and "r mod 1073741824 - 1073741824 * (if r < 0 then 1 else 0) = r"
proof -
  have rr: "- 1073741824 \<le> r" "r \<le> 0" using d b by (auto simp: r_def)
  have "0 \<le> r mod 1073741824" "r mod 1073741824 < 1073741824" by simp_all
  then show "toInt32 (js_and r 0x3FFFFFFF) = r mod 1073741824"
    by (simp add: js_and_mask30 toInt32_nonneg)
  show "js_and (js_shr r 30) 1 = (if r < 0 then 1 else 0)"
    using rr by (intro borrow_bit) auto
  show "r mod 1073741824 - 1073741824 * (if r < 0 then 1 else 0) = r"
  proof (cases "r = 0 \<or> r = - 1073741824")
    case True
    then show ?thesis by auto
  next
    case False
    then have "0 \<le> r + 1073741824" "r + 1073741824 < 1073741824" using rr by auto
    then have "(r + 1073741824) mod 1073741824 = r + 1073741824"
      by (rule mod_pos_pos_trivial)
    then have "r mod 1073741824 = r + 1073741824" by simp
    then show ?thesis using False rr by auto
  qed
qed

lemma negate_loop_spec:
  assumes "digits_in_range ds" "b = 0 \<or> b = 1" "negate_loop ds b = (rs, b')"
  shows "digits_in_range rs \<and> length rs = length ds \<and> (b' = 0 \<or> b' = 1) \<and>
         mag rs - 1073741824 ^ length ds * b' = - mag ds - b"
  using assms
proof (induction ds arbitrary: b rs b')
  case Nil
  then show ?case by simp
next
  case (Cons d ds)
  define r where "r = - d - b"
  define b1 :: int where "b1 = (if r < 0 then 1 else 0)"
  obtain rs1 b2 where rec: "negate_loop ds b1 = (rs1, b2)" by (cases "negate_loop ds b1")
  have d: "0 \<le> d" "d < 1073741824" and ds: "digits_in_range ds" using Cons.prems(1) by simp_all
  note st = negate_step [OF d Cons.prems(2), folded r_def]
  have b1: "b1 = 0 \<or> b1 = 1" by (simp add: b1_def)
  have res: "rs = (r mod 1073741824) # rs1" "b' = b2"
    using Cons.prems(3) rec st(1,2)
    by (simp_all add: Let_def r_def [symmetric] b1_def [symmetric])
  from Cons.IH [OF ds b1 rec]
  have ih: "digits_in_range rs1" "length rs1 = length ds" "b2 = 0 \<or> b2 = 1"
    "mag rs1 - 1073741824 ^ length ds * b2 = - mag ds - b1" by simp_all
  have "0 \<le> r mod 1073741824" "r mod 1073741824 < 1073741824" by simp_all
  then have "digits_in_range rs" using ih(1) res by simp
  moreover have "length rs = length (d # ds)" using ih(2) res by simp
  moreover have "b' = 0 \<or> b' = 1" using ih(3) res by simp
  moreover have "mag rs - 1073741824 ^ length (d # ds) * b' = - mag (d # ds) - b"
  proof -
    have "mag rs - 1073741824 ^ length (d # ds) * b'
        = r mod 1073741824 + 1073741824 * (mag rs1 - 1073741824 ^ length ds * b2)"
      using res by (simp add: algebra_simps)
    also have "\<dots> = r mod 1073741824 + 1073741824 * (- mag ds - b1)" using ih(4) by simp
    also have "\<dots> = (r mod 1073741824 - 1073741824 * b1) - 1073741824 * mag ds"
      by (simp add: algebra_simps)
    also have "\<dots> = r - 1073741824 * mag ds" using st(3) by (simp add: b1_def)
    finally show ?thesis by (simp add: r_def)
  qed
  ultimately show ?case by blast
qed

lemma js_or_0: "0 \<le> v \<Longrightarrow> v < 2147483648 \<Longrightarrow> js_or v 0 = v"
  by (simp add: js_or_def toInt32_nonneg)

lemma mag_replicate_max: "mag (replicate j 1073741823) = 1073741824 ^ j - 1"
  by (induction j) simp_all

lemma neg_bit_mod:
  fixes b :: int
  assumes "b = 0 \<or> b = 1" "1 \<le> k"
  shows "(- b) mod 2 ^ k = b * (2 ^ k - 1)"
proof -
  have "(2::int) ^ 1 \<le> 2 ^ k" using assms(2) by (intro power_increasing) auto
  then have k2: "(2::int) \<le> 2 ^ k" by simp
  show ?thesis
  proof (cases "b = 0")
    case True
    then show ?thesis by simp
  next
    case False
    then have b: "b = 1" using assms by simp
    have "((2::int) ^ k - 1) mod 2 ^ k = 2 ^ k - 1" using k2 by (intro mod_pos_pos_trivial) auto
    moreover have "((2::int) ^ k - 1) mod 2 ^ k = (- 1) mod 2 ^ k"
      by (metis diff_conv_add_uminus add.commute mod_add_self2)
    ultimately show ?thesis using b by simp
  qed
qed

lemma fill_digit:
  assumes "b = 0 \<or> b = 1"
  shows "js_or (js_and (- b) 0x3FFFFFFF) 0 = b * 1073741823"
proof -
  have "(- b) mod 1073741824 = b * 1073741823"
    using neg_bit_mod [OF assms, of 30] by simp
  moreover have "0 \<le> b * 1073741823" "b * 1073741823 < 2147483648" using assms by auto
  ultimately show ?thesis by (simp add: js_and_mask30 js_or_0)
qed

lemma result_msd:
  assumes n: "1 \<le> n" "n < 1073741824" and t: "0 \<le> t" "t < 1073741824"
    and b: "b = 0 \<or> b = 1"
  shows "toInt32 (if n mod 30 = 0 then js_and (- t - b) 0x3FFFFFFF
                  else js_and (js_shl 1 (n mod 30)
                                 - js_shr (js_shl t (32 - n mod 30)) (32 - n mod 30) - b)
                              (js_shl 1 (n mod 30) - 1))
         = (- t - b) mod 2 ^ topBits n"
proof -
  have k: "topBits n \<le> 30" by (rule topBits_range)
  have id: "toInt32 ((- t - b) mod 2 ^ topBits n) = (- t - b) mod 2 ^ topBits n"
    using mod_pow_range [OF k, of "- t - b"] by (intro toInt32_nonneg) auto
  show ?thesis
  proof (cases "n mod 30 = 0")
    case True
    then show ?thesis using id by (simp add: js_and_mask30 topBits_def)
  next
    case False
    have "0 \<le> n mod 30" "n mod 30 < 30" by simp_all
    then have r: "1 \<le> n mod 30" "n mod 30 \<le> 29" using False by auto
    have tb: "topBits n = nat (n mod 30)" using False by (simp add: topBits_def)
    have s1: "js_shl 1 (n mod 30) = 2 ^ topBits n" using r by (simp add: js_shl_1 tb)
    have s2: "js_shr (js_shl t (32 - n mod 30)) (32 - n mod 30) = t mod 2 ^ topBits n"
      using shl_shr_drop [OF r] by (simp add: tb)
    have "js_and (2 ^ topBits n - t mod 2 ^ topBits n - b) (2 ^ topBits n - 1)
        = (2 ^ topBits n - t mod 2 ^ topBits n - b) mod 2 ^ topBits n"
      using k by (rule js_and_low_mask)
    also have "\<dots> = (- t - b) mod 2 ^ topBits n"
    proof -
      have "(2 ^ topBits n - t mod 2 ^ topBits n - b) mod 2 ^ topBits n
          = (2 ^ topBits n + (- (t mod 2 ^ topBits n) - b)) mod 2 ^ topBits n" by (simp add: algebra_simps)
      also have "\<dots> = (- (t mod 2 ^ topBits n) - b) mod 2 ^ topBits n" by (rule mod_add_self1)
      also have "\<dots> = (- t - b) mod 2 ^ topBits n"
        by (metis mod_diff_left_eq mod_minus_eq)
      finally show ?thesis .
    qed
    finally show ?thesis using False id by (simp add: s1 s2)
  qed
qed

lemma mod_unique_repr:
  fixes v :: int
  assumes "0 \<le> v" "v < M" "v = a + M * c"
  shows "a mod M = v"
proof -
  have "a mod M = (a + M * c) mod M" by simp
  also have "\<dots> = v mod M" using assms(3) by simp
  also have "\<dots> = v" using assms(1,2) by (rule mod_pos_pos_trivial)
  finally show ?thesis .
qed

lemma truncateAndSub_spec:
  assumes r: "digits_in_range (digits x)" and n: "1 \<le> n" "n < 1073741824"
    and al: "allocatable (nat ((n + 29) div 30))"
  shows "\<exists>r. truncateAndSubFromPowerOfTwo n x s = Inr r \<and> invariant r \<and>
             mag (digits r) = (- mag (digits x)) mod 2 ^ nat n \<and>
             sign r = (s \<and> digits r \<noteq> []) \<and>
             length (digits r) \<le> nat ((n + 29) div 30)"
proof -
  define L where "L = nat ((n + 29) div 30)"
  define xs where "xs = digits x"
  define lim where "lim = min (L - 1) (length xs)"
  define k where "k = topBits n"
  define P :: int where "P = 1073741824 ^ (L - 1)"
  have L1: "1 \<le> L" unfolding L_def using n(1) by (rule needed_pos)
  have k: "1 \<le> k" "k \<le> 30" unfolding k_def by (rule topBits_range)+
  have pn: "(2::int) ^ nat n = P * 2 ^ k"
    using pow_n_split [OF n(1)] by (simp only: L_def P_def k_def)
  have rx: "digits_in_range xs" using r by (simp add: xs_def)
  obtain low b where nl: "negate_loop (take lim xs) 0 = (low, b)"
    by (cases "negate_loop (take lim xs) 0")
  have llim: "min (length xs) lim = lim" by (simp add: lim_def)
  from negate_loop_spec [OF digits_in_range_take [OF rx] _ nl]
  have low: "digits_in_range low" "length low = lim" "b = 0 \<or> b = 1"
    "mag low - 1073741824 ^ lim * b = - mag (take lim xs)"
    by (simp_all add: llim)
  define t where "t = (if L - 1 < length xs then xs ! (L - 1) else 0)"
  have t: "0 \<le> t" "t < 1073741824"
    using digits_in_range_nth [OF rx, of "L - 1"] by (auto simp: t_def)
  define rm where "rm = (- t - b) mod 2 ^ k"
  have rm: "0 \<le> rm" "rm < 2 ^ k" "rm < 1073741824"
    using mod_pow_range [OF k(2), of "- t - b"] by (simp_all add: rm_def)
  define fill where "fill = replicate (L - 1 - lim) (b * 1073741823)"
  define y where "y = \<lparr>sign = s, digits = low @ fill @ [rm]\<rparr>"
  have res: "truncateAndSubFromPowerOfTwo n x s = Inr (trim y)"
  proof (cases "L - 1 < length xs")
    case inside: True
    then have tx: "t = xs ! (L - 1)" by (simp add: t_def)
    note rmx = result_msd [OF n t low(3), unfolded tx]
    show ?thesis
    proof (cases "n mod 30 = 0")
      case True
      then show ?thesis
        using al nl rmx fill_digit [OF low(3)] inside
        by (simp add: truncateAndSubFromPowerOfTwo_def needed_digits [OF n] L_def [symmetric]
            xs_def [symmetric] lim_def [symmetric] Let_def tx y_def fill_def
            rm_def k_def del: One_nat_def)
    next
      case False
      then show ?thesis
        using al nl rmx fill_digit [OF low(3)] inside
        by (simp add: truncateAndSubFromPowerOfTwo_def needed_digits [OF n] L_def [symmetric]
            xs_def [symmetric] lim_def [symmetric] Let_def tx y_def fill_def
            rm_def k_def del: One_nat_def)
    qed
  next
    case outside: False
    then have tx: "t = 0" by (simp add: t_def)
    note rmx = result_msd [OF n t low(3), unfolded tx]
    show ?thesis
    proof (cases "n mod 30 = 0")
      case True
      then show ?thesis
        using al nl rmx fill_digit [OF low(3)] outside
        by (simp add: truncateAndSubFromPowerOfTwo_def needed_digits [OF n] L_def [symmetric]
            xs_def [symmetric] lim_def [symmetric] Let_def tx y_def fill_def
            rm_def k_def del: One_nat_def)
    next
      case False
      then show ?thesis
        using al nl rmx fill_digit [OF low(3)] outside
        by (simp add: truncateAndSubFromPowerOfTwo_def needed_digits [OF n] L_def [symmetric]
            xs_def [symmetric] lim_def [symmetric] Let_def tx y_def fill_def
            rm_def k_def del: One_nat_def)
    qed
  qed
  have rfill: "digits_in_range fill" using low(3) by (auto simp: fill_def digits_in_range_def)
  have ry: "digits_in_range (digits y)" using low(1) rfill rm by (simp add: y_def)
  have llf: "length (low @ fill) = L - 1" using low(2) by (simp add: fill_def lim_def)
  have ly: "length (digits y) = L" using llf L1 by (simp add: y_def)
  have my: "mag (digits y) = mag (low @ fill) + P * rm"
    using mag_snoc [of "low @ fill" rm] llf by (simp add: y_def P_def)
  have lfb: "0 \<le> mag (low @ fill)" "mag (low @ fill) < P"
    using mag_bounds [of "low @ fill"] low(1) rfill llf by (simp_all add: P_def)
  have P0: "0 < P" by (simp add: P_def)
  have ub: "mag (digits y) < P * 2 ^ k"
  proof -
    have "P * (rm + 1) \<le> P * 2 ^ k" using rm(2) P0 by (intro mult_left_mono) auto
    then show ?thesis using my lfb(2) by (simp add: algebra_simps)
  qed
  have lb: "0 \<le> mag (digits y)" using ry by (rule mag_nonneg)
  obtain c1 where c1: "rm = (- t - b) + 2 ^ k * c1"
  proof
    show "rm = (- t - b) + 2 ^ k * (- ((- t - b) div 2 ^ k))"
      unfolding rm_def using div_mult_mod_eq [of "- t - b" "2 ^ k"] by (simp add: algebra_simps)
  qed
  have cong: "\<exists>c. mag (digits y) = - mag xs + (P * 2 ^ k) * c"
  proof (cases "L - 1 < length xs")
    case True
    then have lim: "lim = L - 1" by (simp add: lim_def)
    then have fe: "fill = []" by (simp add: fill_def)
    have tx: "t = xs ! (L - 1)" using True by (simp add: t_def)
    have sL: "Suc (L - 1) = L" using L1 by simp
    have mx: "mag xs = mag (take (L - 1) xs) + P * (t + 1073741824 * mag (drop L xs))"
      using mag_split_at [OF True] by (simp only: sL P_def tx)
    have ml: "mag low = P * b - mag (take (L - 1) xs)"
      using low(4) by (simp add: lim P_def)
    obtain e where e: "(1073741824::int) = 2 ^ k * e"
    proof
      have "(2::int) ^ (k + (30 - k)) = 2 ^ 30" using k(2) by simp
      then show "(1073741824::int) = 2 ^ k * 2 ^ (30 - k)" by (simp only: power_add) simp
    qed
    have "mag (digits y) = mag low + P * rm" using my fe by simp
    also have "\<dots> = - mag xs + P * (1073741824 * mag (drop L xs)) + P * (2 ^ k * c1)"
      unfolding ml mx by (subst c1) (simp add: algebra_simps)
    also have "P * (1073741824 * mag (drop L xs)) = P * (2 ^ k * (e * mag (drop L xs)))"
      by (subst e) (simp add: algebra_simps)
    finally have "mag (digits y) = - mag xs + (P * 2 ^ k) * (e * mag (drop L xs) + c1)"
      by (simp add: algebra_simps)
    then show ?thesis by blast
  next
    case False
    then have lim: "lim = length xs" by (simp add: lim_def)
    have t0: "t = 0" using False by (simp add: t_def)
    have ml: "mag low = 1073741824 ^ lim * b - mag xs" using low(4) by (simp add: lim)
    have mf: "mag fill = b * (1073741824 ^ (L - 1 - lim) - 1)"
      using low(3) by (auto simp: fill_def mag_replicate_max)
    have pp: "(1073741824::int) ^ lim * 1073741824 ^ (L - 1 - lim) = P"
      using False by (simp add: P_def lim flip: power_add)
    have rmb: "rm = b * (2 ^ k - 1)" using neg_bit_mod [OF low(3) k(1)] by (simp add: rm_def t0)
    have "mag (digits y) = mag low + 1073741824 ^ lim * mag fill + P * rm"
      using my low(2) by (simp add: mag_append)
    also have "\<dots> = - mag xs + b * (1073741824 ^ lim * 1073741824 ^ (L - 1 - lim)) + P * (b * 2 ^ k) - P * b"
      unfolding ml mf rmb by (simp add: algebra_simps)
    also have "\<dots> = - mag xs + (P * 2 ^ k) * b" unfolding pp by (simp add: algebra_simps)
    finally show ?thesis by blast
  qed
  then obtain c where c: "mag (digits y) = - mag xs + (P * 2 ^ k) * c" ..
  have val: "mag (digits y) = (- mag xs) mod 2 ^ nat n"
    unfolding pn using mod_unique_repr [OF lb ub c] by simp
  have sy: "sign y = s" by (simp add: y_def)
  show ?thesis
  proof (intro exI conjI)
    show "truncateAndSubFromPowerOfTwo n x s = Inr (trim y)" by (rule res)
    show "invariant (trim y)" by (rule invariant_trim [OF ry])
    show "mag (digits (trim y)) = (- mag (digits x)) mod 2 ^ nat n"
      using val by (simp only: mag_trim xs_def)
    show "sign (trim y) = (s \<and> digits (trim y) \<noteq> [])"
      using sign_trim [of y] by (simp only: sy)
    show "length (digits (trim y)) \<le> nat ((n + 29) div 30)"
      using length_trim [of y] ly by (simp only: L_def)
  qed
qed

lemma pow_n_bounds:
  assumes "1 \<le> n"
  shows "(1073741824::int) ^ (nat ((n + 29) div 30) - 1) \<le> 2 ^ nat n"
    and "(2::int) ^ nat n \<le> 1073741824 ^ nat ((n + 29) div 30)"
proof -
  define L where "L = nat ((n + 29) div 30)"
  define P :: int where "P = 1073741824 ^ (L - 1)"
  have L1: "1 \<le> L" unfolding L_def using assms by (rule needed_pos)
  have pn: "(2::int) ^ nat n = P * 2 ^ topBits n"
    using pow_n_split [OF assms] by (simp only: L_def P_def)
  have P0: "0 < P" by (simp add: P_def)
  have k: "1 \<le> topBits n" "topBits n \<le> 30" by (rule topBits_range)+
  have "(2::int) ^ topBits n \<le> 2 ^ 30" using k by (intro power_increasing) auto
  then have k2: "(2::int) ^ topBits n \<le> 1073741824" by simp
  have "P * 1 \<le> P * 2 ^ topBits n" using P0 by (intro mult_left_mono) auto
  then show "(1073741824::int) ^ (nat ((n + 29) div 30) - 1) \<le> 2 ^ nat n"
    unfolding pn L_def [symmetric] P_def [symmetric] by simp
  have "P * 2 ^ topBits n \<le> P * 1073741824" using P0 k2 by (intro mult_left_mono) auto
  also have "P * 1073741824 = 1073741824 ^ Suc (L - 1)" by (simp add: P_def)
  also have "Suc (L - 1) = L" using L1 by simp
  finally show "(2::int) ^ nat n \<le> 1073741824 ^ nat ((n + 29) div 30)"
    unfolding pn L_def [symmetric] .
qed

lemma mag_less_pow_n_short:
  assumes r: "digits_in_range xs" and n: "1 \<le> n"
    and l: "length xs < nat ((n + 29) div 30)"
  shows "mag xs < 2 ^ nat n"
proof -
  have "mag xs < 1073741824 ^ length xs" using r by (rule mag_less)
  also have "\<dots> \<le> 1073741824 ^ (nat ((n + 29) div 30) - 1)"
    using l by (intro power_increasing) auto
  also have "\<dots> \<le> 2 ^ nat n" using n by (rule pow_n_bounds)
  finally show ?thesis .
qed

lemma mag_top_bound:
  assumes r: "digits_in_range xs" and ne: "xs \<noteq> []"
  shows "1073741824 ^ (length xs - 1) * last xs \<le> mag xs"
    and "mag xs < 1073741824 ^ (length xs - 1) * (last xs + 1)"
proof -
  have ds: "xs = butlast xs @ [last xs]" using ne by simp
  have m: "mag xs = mag (butlast xs) + 1073741824 ^ (length xs - 1) * last xs"
    by (subst ds) (simp add: mag_snoc)
  have b: "0 \<le> mag (butlast xs)" "mag (butlast xs) < 1073741824 ^ (length xs - 1)"
    using mag_bounds [OF digits_in_range_butlast [OF r]] by simp_all
  show "1073741824 ^ (length xs - 1) * last xs \<le> mag xs" using m b by simp
  show "mag xs < 1073741824 ^ (length xs - 1) * (last xs + 1)"
    using m b by (simp add: algebra_simps)
qed

lemma mag_less_pow_n_iff_top:
  assumes r: "digits_in_range xs" and n: "1 \<le> n"
    and l: "length xs = nat ((n + 29) div 30)"
  shows "mag xs < 2 ^ nat n \<longleftrightarrow> last xs < 2 ^ topBits n"
proof -
  define P :: int where "P = 1073741824 ^ (length xs - 1)"
  have L1: "1 \<le> length xs" unfolding l using n by (rule needed_pos)
  then have ne: "xs \<noteq> []" by auto
  have pn: "(2::int) ^ nat n = P * 2 ^ topBits n"
    using pow_n_split [OF n] by (simp only: l [symmetric] P_def)
  have P0: "0 < P" by (simp add: P_def)
  note tb = mag_top_bound [OF r ne, folded P_def]
  show ?thesis
  proof
    assume "mag xs < 2 ^ nat n"
    then have "P * last xs < P * 2 ^ topBits n" using tb(1) pn by simp
    then show "last xs < 2 ^ topBits n" using P0 by (simp add: mult_less_cancel_left_pos)
  next
    assume "last xs < 2 ^ topBits n"
    then have "P * (last xs + 1) \<le> P * 2 ^ topBits n" using P0 by (intro mult_left_mono) auto
    then show "mag xs < 2 ^ nat n" using tb(2) pn by simp
  qed
qed

lemma mag_ge_pow_n_long:
  assumes i: "invariant x" and n: "1 \<le> n"
    and l: "nat ((n + 29) div 30) < length (digits x)"
  shows "2 ^ nat n \<le> mag (digits x)"
proof -
  have ne: "digits x \<noteq> []" using l by auto
  have "(2::int) ^ nat n \<le> 1073741824 ^ nat ((n + 29) div 30)" using n by (rule pow_n_bounds)
  also have "\<dots> \<le> 1073741824 ^ (length (digits x) - 1)"
    using l by (intro power_increasing) auto
  also have "\<dots> \<le> mag (digits x)" using i ne by (rule invariant_mag_lower)
  finally show ?thesis .
qed

lemma top_shift_zero_iff:
  assumes t: "0 \<le> t" "t < 1073741824" and n: "n mod 30 \<noteq> 0"
  shows "js_shr t (n mod 30) = 0 \<longleftrightarrow> t < 2 ^ topBits n"
proof -
  have "0 \<le> n mod 30" "n mod 30 < 30" by simp_all
  then have r: "0 \<le> n mod 30" "n mod 30 < 32" by auto
  have tb: "topBits n = nat (n mod 30)" using n by (simp add: topBits_def)
  have "js_shr t (n mod 30) = t div 2 ^ topBits n"
    using t r by (simp add: js_shr_nonneg tb)
  moreover have "(0::int) < 2 ^ topBits n" by simp
  ultimately show ?thesis using t by (auto simp: zdiv_eq_0_iff)
qed

lemma wellformed_mag_less_big:
  assumes wf: "wellformed x" and n: "kMaxLengthBits \<le> n"
  shows "mag (digits x) < 2 ^ nat n"
proof -
  have r: "digits_in_range (digits x)" and l: "int (length (digits x)) \<le> kMaxLength"
    using wf by (simp_all add: wellformed_def invariant_def allocatable_def)
  have "30 * length (digits x) \<le> nat n"
    using l n by (simp add: kMaxLength_def kMaxLengthBits_def)
  then have "(2::int) ^ (30 * length (digits x)) \<le> 2 ^ nat n"
    by (intro power_increasing) auto
  moreover have "mag (digits x) < 2 ^ (30 * length (digits x))"
    using mag_less [OF r] by (simp only: pow30)
  ultimately show ?thesis by linarith
qed

lemma last_digitB: "xs \<noteq> [] \<Longrightarrow> digitB xs (length xs - 1) = last xs"
  by (simp add: digitB_def last_conv_nth)

lemma asUintN_fixed:
  assumes i: "invariant r" and s: "\<not> sign r" and m: "mag (digits r) < 2 ^ nat n" and n: "0 \<le> n"
  shows "asUintN n r = Inr r"
proof (cases "digits r = []")
  case True
  then show ?thesis by (simp add: asUintN_def)
next
  case ne: False
  have rr: "digits_in_range (digits r)" using i by (simp add: invariant_def)
  have low: "1 \<le> mag (digits r)"
  proof -
    have "(1::int) \<le> 1073741824 ^ (length (digits r) - 1)" by simp
    also have "\<dots> \<le> mag (digits r)" using i ne by (rule invariant_mag_lower)
    finally show ?thesis .
  qed
  have n1: "1 \<le> n"
  proof (rule ccontr)
    assume "\<not> 1 \<le> n"
    then have "n = 0" using n by simp
    then show False using m low by simp
  qed
  show ?thesis
  proof (cases "n \<ge> kMaxLengthBits")
    case True
    then show ?thesis using ne s n1 by (simp add: asUintN_def)
  next
    case False
    then have nb: "n < 1073741824" by (simp add: kMaxLengthBits_def)
    define L where "L = nat ((n + 29) div 30)"
    have notlong: "\<not> L < length (digits r)"
      using mag_ge_pow_n_long [OF i n1] m by (auto simp: L_def)
    show ?thesis
    proof (cases "length (digits r) < L")
      case True
      then show ?thesis using ne s n1 False
        by (simp add: asUintN_def needed_digits [OF n1 nb] L_def [symmetric] Let_def)
    next
      case False
      then have eq: "length (digits r) = L" using notlong by simp
      have top: "last (digits r) < 2 ^ topBits n"
        using mag_less_pow_n_iff_top [OF rr n1 eq [unfolded L_def]] m by simp
      have tr: "0 \<le> last (digits r)" "last (digits r) < 1073741824"
        using rr ne by (simp_all add: digits_in_range_def)
      have "n mod 30 = 0 \<or> js_shr (digitB (digits r) (L - 1)) (n mod 30) = 0"
        using top_shift_zero_iff [OF tr, of n] top last_digitB [OF ne] eq by auto
      then show ?thesis using ne s n1 \<open>\<not> n \<ge> kMaxLengthBits\<close> eq
        by (simp add: asUintN_def needed_digits [OF n1 nb] L_def [symmetric] Let_def
            del: One_nat_def)
    qed
  qed
qed

lemma allocatable_needed:
  assumes "1 \<le> n" "n \<le> 1006632960"
  shows "allocatable (nat ((n + 29) div 30))"
proof -
  have "(n + 29) div 30 \<le> 33554432" using assms by linarith
  then show ?thesis by (simp add: allocatable_def kMaxLength_def)
qed

lemma invariant_zero [simp]: "invariant zero"
  by (simp add: invariant_def zero_def)

lemma val_zero [simp]: "val zero = 0"
  by (simp add: val_def zero_def)

lemma digits_zero [simp]: "digits zero = []" "sign zero = False"
  by (simp_all add: zero_def)

lemma asUintN_spec:
  assumes wf: "wellformed x" and n: "0 \<le> n" and ok: "\<not> sign x \<or> n \<le> 1006632960"
  shows "\<exists>r. asUintN n x = Inr r \<and> invariant r \<and> \<not> sign r \<and>
             mag (digits r) = val x mod 2 ^ nat n \<and>
             allocatable (length (digits r))"
proof -
  have i: "invariant x" and al: "allocatable (length (digits x))"
    using wf by (simp_all add: wellformed_def)
  have rx: "digits_in_range (digits x)" using i by (simp add: invariant_def)
  have m0: "0 \<le> mag (digits x)" using rx by (rule mag_nonneg)
  show ?thesis
  proof (cases "digits x = []")
    case True
    then have "asUintN n x = Inr x" "\<not> sign x" "val x = 0"
      using i by (simp_all add: asUintN_def invariant_def val_def)
    then show ?thesis using i al True by simp
  next
    case ne: False
    show ?thesis
    proof (cases "n = 0")
      case True
      then have "asUintN n x = Inr zero" using ne by (simp add: asUintN_def)
      then show ?thesis using True by (simp add: allocatable_def kMaxLength_def)
    next
      case False
      then have n1: "1 \<le> n" using n by simp
      show ?thesis
      proof (cases "sign x")
        case neg: True
        then have nle: "n \<le> 1006632960" using ok by simp
        then have nb: "n < 1073741824" "\<not> n > kMaxLengthBits" by (simp_all add: kMaxLengthBits_def)
        have alL: "allocatable (nat ((n + 29) div 30))" using n1 nle by (rule allocatable_needed)
        from truncateAndSub_spec [OF rx n1 nb(1) alL, of False]
        obtain r where r: "truncateAndSubFromPowerOfTwo n x False = Inr r" "invariant r"
          "mag (digits r) = (- mag (digits x)) mod 2 ^ nat n" "sign r = (False \<and> digits r \<noteq> [])"
          "length (digits r) \<le> nat ((n + 29) div 30)" by blast
        have "asUintN n x = Inr r" using ne \<open>n \<noteq> 0\<close> n1 neg nb r(1) by (simp add: asUintN_def)
        moreover have "allocatable (length (digits r))" using alL r(5) by (rule allocatable_mono)
        moreover have "val x = - mag (digits x)" using neg by (simp add: val_def)
        ultimately show ?thesis using r by auto
      next
        case pos: False
        then have vx: "val x = mag (digits x)" by (simp add: val_def)
        have same: "asUintN n x = Inr x \<Longrightarrow> mag (digits x) < 2 ^ nat n \<Longrightarrow> ?thesis"
          using i al pos m0 by (auto simp: vx mod_pos_pos_trivial)
        show ?thesis
        proof (cases "n \<ge> kMaxLengthBits")
          case True
          then have "asUintN n x = Inr x" using ne \<open>n \<noteq> 0\<close> n1 pos by (simp add: asUintN_def)
          then show ?thesis using wellformed_mag_less_big [OF wf True] by (rule same)
        next
          case small: False
          then have nb: "n < 1073741824" by (simp add: kMaxLengthBits_def)
          define L where "L = nat ((n + 29) div 30)"
          show ?thesis
          proof (cases "length (digits x) < L")
            case True
            then have "asUintN n x = Inr x" using ne \<open>n \<noteq> 0\<close> n1 pos small
              by (simp add: asUintN_def needed_digits [OF n1 nb] L_def [symmetric] Let_def)
            then show ?thesis
              using mag_less_pow_n_short [OF rx n1 True [unfolded L_def]] by (rule same)
          next
            case long: False
            define fits where "fits \<longleftrightarrow> length (digits x) = L \<and>
               (n mod 30 = 0 \<or> js_shr (digitB (digits x) (L - 1)) (n mod 30) = 0)"
            show ?thesis
            proof (cases fits)
              case True
              then have eq: "length (digits x) = L" by (simp add: fits_def)
              have tr: "0 \<le> last (digits x)" "last (digits x) < 1073741824"
                using rx ne by (simp_all add: digits_in_range_def)
              have "last (digits x) < 2 ^ topBits n"
              proof (cases "n mod 30 = 0")
                case True
                then show ?thesis using tr by (simp add: topBits_def)
              next
                case False
                then have "js_shr (last (digits x)) (n mod 30) = 0"
                  using \<open>fits\<close> last_digitB [OF ne] eq by (simp add: fits_def)
                then show ?thesis using top_shift_zero_iff [OF tr False] by simp
              qed
              then have lt: "mag (digits x) < 2 ^ nat n"
                using mag_less_pow_n_iff_top [OF rx n1 eq [unfolded L_def]] by simp
              have "asUintN n x = Inr x" using ne \<open>n \<noteq> 0\<close> n1 pos small long True
                by (simp add: asUintN_def needed_digits [OF n1 nb] L_def [symmetric] Let_def
                    fits_def del: One_nat_def)
              then show ?thesis using lt by (rule same)
            next
              case False
              then have nf: "\<not> (length (digits x) = L \<and>
                  (n mod 30 = 0 \<or> js_shr (digitB (digits x) (L - 1)) (n mod 30) = 0))"
                unfolding fits_def .
              have "asUintN n x = truncateToNBits n x" using ne \<open>n \<noteq> 0\<close> n1 pos small long nf
                by (auto simp: asUintN_def needed_digits [OF n1 nb] L_def [symmetric] Let_def
                    simp del: One_nat_def)
              moreover from truncateToNBits_spec [OF rx n1 nb _ al] long
              obtain r where r: "truncateToNBits n x = Inr r" "invariant r"
                "mag (digits r) = mag (digits x) mod 2 ^ nat n" "sign r = (sign x \<and> digits r \<noteq> [])"
                "length (digits r) \<le> nat ((n + 29) div 30)" by (auto simp: L_def)
              moreover have "allocatable (length (digits r))"
                using al r(5) long by (intro allocatable_mono [OF al]) (simp add: L_def)
              ultimately show ?thesis using pos vx by auto
            qed
          qed
        qed
      qed
    qed
  qed
qed

lemma mod_eqI:
  fixes T :: int
  assumes "0 \<le> T" "T < M" "X = T + M * c"
  shows "X mod M = T"
proof -
  have "X mod M = T mod M" using assms(3) by simp
  also have "\<dots> = T" using assms(1,2) by (rule mod_pos_pos_trivial)
  finally show ?thesis .
qed

lemma sw_small:
  fixes v :: int
  assumes "- H \<le> v" "v < H"
  shows "(v + H) mod (2 * H) - H = v"
proof -
  have "(v + H) mod (2 * H) = v + H" using assms by (intro mod_pos_pos_trivial) auto
  then show ?thesis by simp
qed

lemma sw_pos_low:
  fixes a :: int
  assumes H: "0 < H" and l: "a mod (2 * H) < H"
  shows "(a + H) mod (2 * H) - H = a mod (2 * H)"
proof -
  have a: "a = a mod (2 * H) + (2 * H) * (a div (2 * H))" by simp
  have "(a + H) mod (2 * H) = a mod (2 * H) + H"
  proof (rule mod_eqI)
    show "0 \<le> a mod (2 * H) + H" using H by (simp add: add_nonneg_nonneg)
    show "a mod (2 * H) + H < 2 * H" using l by simp
    show "a + H = a mod (2 * H) + H + 2 * H * (a div (2 * H))" using a by linarith
  qed
  then show ?thesis by simp
qed

lemma sw_neg_low:
  fixes a :: int
  assumes H: "0 < H" and l: "a mod (2 * H) < H"
  shows "(- a + H) mod (2 * H) - H = - (a mod (2 * H))"
proof -
  have a: "a = a mod (2 * H) + (2 * H) * (a div (2 * H))" by simp
  have nn: "0 \<le> a mod (2 * H)" using H by simp
  have "(- a + H) mod (2 * H) = H - a mod (2 * H)"
  proof (rule mod_eqI)
    show "0 \<le> H - a mod (2 * H)" using l by simp
    show "H - a mod (2 * H) < 2 * H" using nn H by linarith
    show "- a + H = H - a mod (2 * H) + 2 * H * (- (a div (2 * H)))" using a by (simp add: algebra_simps)
  qed
  then show ?thesis by simp
qed

lemma sw_pos_high:
  fixes a :: int
  assumes H: "0 < H" and l: "H \<le> a mod (2 * H)"
  shows "(a + H) mod (2 * H) - H = a mod (2 * H) - 2 * H"
proof -
  have a: "a = a mod (2 * H) + (2 * H) * (a div (2 * H))" by simp
  have ub: "a mod (2 * H) < 2 * H" using H by simp
  have "(a + H) mod (2 * H) = a mod (2 * H) - H"
  proof (rule mod_eqI)
    show "0 \<le> a mod (2 * H) - H" using l by simp
    show "a mod (2 * H) - H < 2 * H" using ub H by linarith
    show "a + H = a mod (2 * H) - H + 2 * H * (a div (2 * H) + 1)" using a by (simp add: algebra_simps)
  qed
  then show ?thesis by simp
qed

lemma neg_mod:
  fixes a :: int
  assumes H: "0 < H"
  shows "(- a) mod (2 * H) = (if a mod (2 * H) = 0 then 0 else 2 * H - a mod (2 * H))"
proof -
  have a: "a = a mod (2 * H) + (2 * H) * (a div (2 * H))" by simp
  have nn: "0 \<le> a mod (2 * H)" "a mod (2 * H) < 2 * H" using H by simp_all
  show ?thesis
  proof (cases "a mod (2 * H) = 0")
    case True
    then have "(- a) mod (2 * H) = 0" by (simp add: mod_minus_eq [symmetric, of a] del: mod_minus_eq)
    then show ?thesis using True by simp
  next
    case False
    have "(- a) mod (2 * H) = 2 * H - a mod (2 * H)"
    proof (rule mod_eqI)
      show "0 \<le> 2 * H - a mod (2 * H)" using nn by simp
      show "2 * H - a mod (2 * H) < 2 * H" using nn False by simp
      show "- a = 2 * H - a mod (2 * H) + 2 * H * (- (a div (2 * H)) - 1)"
        using a by (simp add: algebra_simps)
    qed
    then show ?thesis using False by simp
  qed
qed

lemma sw_neg_high:
  fixes a :: int
  assumes H: "0 < H" and l: "H \<le> a mod (2 * H)"
  shows "(- a + H) mod (2 * H) - H = (if a mod (2 * H) = H then - H else 2 * H - a mod (2 * H))"
proof -
  have a: "a = a mod (2 * H) + (2 * H) * (a div (2 * H))" by simp
  have ub: "a mod (2 * H) < 2 * H" using H by simp
  show ?thesis
  proof (cases "a mod (2 * H) = H")
    case True
    have "(- a + H) mod (2 * H) = 0"
    proof (rule mod_eqI)
      show "(0::int) \<le> 0" by simp
      show "0 < 2 * H" using H by simp
      show "- a + H = 0 + 2 * H * (- (a div (2 * H)))" using a True by (simp add: algebra_simps)
    qed
    then show ?thesis using True by simp
  next
    case False
    have "(- a + H) mod (2 * H) = 3 * H - a mod (2 * H)"
    proof (rule mod_eqI)
      show "0 \<le> 3 * H - a mod (2 * H)" using ub H by linarith
      show "3 * H - a mod (2 * H) < 2 * H" using l False by simp
      show "- a + H = 3 * H - a mod (2 * H) + 2 * H * (- (a div (2 * H)) - 1)"
        using a by (simp add: algebra_simps)
    qed
    then show ?thesis using False by simp
  qed
qed

lemma topBits_pred:
  assumes "1 \<le> n"
  shows "topBits n = Suc (nat ((n - 1) mod 30))"
proof (cases "n mod 30 = 0")
  case True
  define q where "q = n div 30"
  have n: "n = 30 * q" using True by (simp add: mod_eq_0_iff_dvd q_def)
  have "n - 1 = 29 + 30 * (q - 1)" using n by simp
  then have "(n - 1) mod 30 = 29 mod 30" by (metis mod_mult_self2)
  then show ?thesis using True by (simp add: topBits_def)
next
  case False
  have b: "0 \<le> n mod 30" "n mod 30 < 30" by simp_all
  define q where "q = n div 30"
  define m where "m = n mod 30"
  have n: "n = m + 30 * q" by (simp add: q_def m_def)
  have "n - 1 = (m - 1) + 30 * q" using n by simp
  then have "(n - 1) mod 30 = (m - 1) mod 30" by (metis mod_mult_self2)
  then have "(n - 1) mod 30 = (n mod 30 - 1) mod 30" by (simp only: m_def)
  also have "\<dots> = n mod 30 - 1" using b False by (intro mod_pos_pos_trivial) linarith+
  finally show ?thesis using False b by (simp add: topBits_def)
qed

lemma pow_n_double:
  assumes "1 \<le> n"
  shows "(2::int) ^ nat n = 2 * 2 ^ (nat n - 1)"
proof -
  have "nat n = Suc (nat n - 1)" using assms by simp
  then have "(2::int) ^ nat n = 2 ^ Suc (nat n - 1)" by simp
  then show ?thesis by simp
qed

lemma half_split:
  assumes n: "1 \<le> n"
  shows "(2::int) ^ (nat n - 1) =
         1073741824 ^ (nat ((n + 29) div 30) - 1) * 2 ^ nat ((n - 1) mod 30)"
proof -
  have "2 * (2::int) ^ (nat n - 1) = 2 ^ nat n" using pow_n_double [OF n] by simp
  also have "\<dots> = 1073741824 ^ (nat ((n + 29) div 30) - 1) * 2 ^ topBits n"
    using n by (rule pow_n_split)
  also have "\<dots> = 2 * (1073741824 ^ (nat ((n + 29) div 30) - 1) * 2 ^ nat ((n - 1) mod 30))"
    by (simp add: topBits_pred [OF n])
  finally show ?thesis by simp
qed

lemma mod_Suc_pow_bit:
  fixes t :: int
  assumes "2 ^ j \<le> t mod 2 ^ Suc j"
  shows "t mod 2 ^ Suc j = 2 ^ j + t mod 2 ^ j"
proof -
  have e: "t mod 2 ^ Suc j = 2 ^ j * (t div 2 ^ j mod 2) + t mod 2 ^ j"
    using zmod_zmult2_eq [of 2 t "2 ^ j"] by (simp add: mult.commute)
  have lt: "t mod 2 ^ j < 2 ^ j" by simp
  have "t div 2 ^ j mod 2 = 0 \<or> t div 2 ^ j mod 2 = 1" by auto
  then show ?thesis
  proof
    assume "t div 2 ^ j mod 2 = 0"
    then have "t mod 2 ^ Suc j = t mod 2 ^ j" using e by simp
    then show ?thesis using assms lt by simp
  next
    assume "t div 2 ^ j mod 2 = 1"
    then show ?thesis using e by simp
  qed
qed

lemma mod_Suc_pow_low:
  fixes t :: int
  assumes "\<not> 2 ^ j \<le> t mod 2 ^ Suc j"
  shows "t mod 2 ^ Suc j = t mod 2 ^ j"
proof -
  have e: "t mod 2 ^ Suc j = 2 ^ j * (t div 2 ^ j mod 2) + t mod 2 ^ j"
    using zmod_zmult2_eq [of 2 t "2 ^ j"] by (simp add: mult.commute)
  have nn: "0 \<le> t mod 2 ^ j" by simp
  have "t div 2 ^ j mod 2 = 0 \<or> t div 2 ^ j mod 2 = 1" by auto
  then show ?thesis
  proof
    assume "t div 2 ^ j mod 2 = 0"
    then show ?thesis using e by simp
  next
    assume "t div 2 ^ j mod 2 = 1"
    then have "t mod 2 ^ Suc j = 2 ^ j + t mod 2 ^ j" using e by simp
    then show ?thesis using assms nn by simp
  qed
qed

lemma mag_mod_high_iff:
  assumes r: "digits_in_range xs" and n: "1 \<le> n"
    and L: "nat ((n + 29) div 30) \<le> length xs"
  shows "2 ^ (nat n - 1) \<le> mag xs mod 2 ^ nat n \<longleftrightarrow>
         2 ^ nat ((n - 1) mod 30)
           \<le> xs ! (nat ((n + 29) div 30) - 1) mod 2 ^ Suc (nat ((n - 1) mod 30))"
proof -
  define P :: int where "P = 1073741824 ^ (nat ((n + 29) div 30) - 1)"
  define lo where "lo = mag (take (nat ((n + 29) div 30) - 1) xs)"
  define t where "t = xs ! (nat ((n + 29) div 30) - 1)"
  define j where "j = nat ((n - 1) mod 30)"
  have P0: "0 < P" by (simp add: P_def)
  have m: "mag xs mod 2 ^ nat n = lo + P * (t mod 2 ^ Suc j)"
    using mag_mod_pow_n [OF r n L] by (simp only: P_def lo_def t_def j_def topBits_pred [OF n])
  have h: "(2::int) ^ (nat n - 1) = P * 2 ^ j"
    using half_split [OF n] by (simp only: P_def j_def)
  have rt: "digits_in_range (take (nat ((n + 29) div 30) - 1) xs)"
    using r by (rule digits_in_range_take)
  have lo0: "0 \<le> lo" unfolding lo_def using rt by (rule mag_nonneg)
  have "lo < 1073741824 ^ length (take (nat ((n + 29) div 30) - 1) xs)"
    unfolding lo_def using rt by (rule mag_less)
  moreover have "length (take (nat ((n + 29) div 30) - 1) xs) = nat ((n + 29) div 30) - 1"
    using L by simp
  ultimately have loP: "lo < P" by (simp only: P_def)
  show ?thesis unfolding m h t_def [symmetric] j_def [symmetric]
  proof
    assume a: "P * 2 ^ j \<le> lo + P * (t mod 2 ^ Suc j)"
    show "2 ^ j \<le> t mod 2 ^ Suc j"
    proof (rule ccontr)
      assume "\<not> 2 ^ j \<le> t mod 2 ^ Suc j"
      then have "t mod 2 ^ Suc j + 1 \<le> 2 ^ j" by simp
      then have "P * (t mod 2 ^ Suc j + 1) \<le> P * 2 ^ j" using P0 by (intro mult_left_mono) auto
      then have "P * (t mod 2 ^ Suc j) + P \<le> P * 2 ^ j" by (simp add: algebra_simps)
      then show False using a loP by linarith
    qed
  next
    assume "2 ^ j \<le> t mod 2 ^ Suc j"
    then have "P * 2 ^ j \<le> P * (t mod 2 ^ Suc j)" using P0 by (intro mult_left_mono) auto
    then show "P * 2 ^ j \<le> lo + P * (t mod 2 ^ Suc j)" using lo0 by linarith
  qed
qed

lemma mag_mod_half_iff:
  assumes r: "digits_in_range xs" and n: "1 \<le> n"
    and L: "nat ((n + 29) div 30) \<le> length xs"
    and hb: "2 ^ nat ((n - 1) mod 30)
           \<le> xs ! (nat ((n + 29) div 30) - 1) mod 2 ^ Suc (nat ((n - 1) mod 30))"
  shows "mag xs mod 2 ^ nat n = 2 ^ (nat n - 1) \<longleftrightarrow>
         xs ! (nat ((n + 29) div 30) - 1) mod 2 ^ nat ((n - 1) mod 30) = 0 \<and>
         mag (take (nat ((n + 29) div 30) - 1) xs) = 0"
proof -
  define P :: int where "P = 1073741824 ^ (nat ((n + 29) div 30) - 1)"
  define lo where "lo = mag (take (nat ((n + 29) div 30) - 1) xs)"
  define t where "t = xs ! (nat ((n + 29) div 30) - 1)"
  define j where "j = nat ((n - 1) mod 30)"
  have P0: "0 < P" by (simp add: P_def)
  have m: "mag xs mod 2 ^ nat n = lo + P * (t mod 2 ^ Suc j)"
    using mag_mod_pow_n [OF r n L] by (simp only: P_def lo_def t_def j_def topBits_pred [OF n])
  have h: "(2::int) ^ (nat n - 1) = P * 2 ^ j"
    using half_split [OF n] by (simp only: P_def j_def)
  have rt: "digits_in_range (take (nat ((n + 29) div 30) - 1) xs)"
    using r by (rule digits_in_range_take)
  have lo0: "0 \<le> lo" unfolding lo_def using rt by (rule mag_nonneg)
  have tm: "t mod 2 ^ Suc j = 2 ^ j + t mod 2 ^ j"
    using hb unfolding t_def [symmetric] j_def [symmetric] by (rule mod_Suc_pow_bit)
  have m2: "mag xs mod 2 ^ nat n = P * 2 ^ j + (lo + P * (t mod 2 ^ j))"
    unfolding m tm by (simp add: algebra_simps)
  have t0: "0 \<le> t mod 2 ^ j" by simp
  have pt0: "0 \<le> P * (t mod 2 ^ j)" using P0 t0 by simp
  show ?thesis unfolding m2 h t_def [symmetric] j_def [symmetric] lo_def [symmetric]
  proof
    assume "P * 2 ^ j + (lo + P * (t mod 2 ^ j)) = P * 2 ^ j"
    then have z: "lo + P * (t mod 2 ^ j) = 0" by simp
    then have "lo = 0" "P * (t mod 2 ^ j) = 0" using lo0 pt0 by linarith+
    then show "t mod 2 ^ j = 0 \<and> lo = 0" using P0 by simp
  next
    assume "t mod 2 ^ j = 0 \<and> lo = 0"
    then show "P * 2 ^ j + (lo + P * (t mod 2 ^ j)) = P * 2 ^ j" by simp
  qed
qed

lemma wellformed_mag_less_half:
  assumes wf: "wellformed x" and n: "kMaxLengthBits \<le> n"
  shows "mag (digits x) < 2 ^ (nat n - 1)"
proof -
  have r: "digits_in_range (digits x)" and l: "int (length (digits x)) \<le> kMaxLength"
    using wf by (simp_all add: wellformed_def invariant_def allocatable_def)
  have "30 * length (digits x) \<le> nat n - 1"
    using l n by (simp add: kMaxLength_def kMaxLengthBits_def)
  then have "(2::int) ^ (30 * length (digits x)) \<le> 2 ^ (nat n - 1)"
    by (intro power_increasing) auto
  moreover have "mag (digits x) < 2 ^ (30 * length (digits x))"
    using mag_less [OF r] by (simp only: pow30)
  ultimately show ?thesis by linarith
qed

lemma mag_less_half_short:
  assumes r: "digits_in_range xs" and n: "1 \<le> n"
    and l: "length xs < nat ((n + 29) div 30)"
  shows "mag xs < 2 ^ (nat n - 1)"
proof -
  have "mag xs < 1073741824 ^ length xs" using r by (rule mag_less)
  also have "\<dots> \<le> 1073741824 ^ (nat ((n + 29) div 30) - 1)"
    using l by (intro power_increasing) auto
  also have "\<dots> \<le> 1073741824 ^ (nat ((n + 29) div 30) - 1) * 2 ^ nat ((n - 1) mod 30)"
    by simp
  also have "\<dots> = 2 ^ (nat n - 1)" using half_split [OF n] by simp
  finally show ?thesis .
qed

lemma mag_less_half_top:
  assumes r: "digits_in_range xs" and n: "1 \<le> n"
    and l: "length xs = nat ((n + 29) div 30)"
    and t: "xs ! (nat ((n + 29) div 30) - 1) < 2 ^ nat ((n - 1) mod 30)"
  shows "mag xs < 2 ^ (nat n - 1)"
proof -
  define P :: int where "P = 1073741824 ^ (length xs - 1)"
  have L1: "1 \<le> length xs" unfolding l using n by (rule needed_pos)
  then have ne: "xs \<noteq> []" by auto
  have la: "last xs = xs ! (nat ((n + 29) div 30) - 1)"
    using ne by (simp add: last_conv_nth l)
  have P0: "0 < P" by (simp add: P_def)
  note tb = mag_top_bound [OF r ne, folded P_def]
  have "last xs + 1 \<le> 2 ^ nat ((n - 1) mod 30)" using t la by simp
  then have "P * (last xs + 1) \<le> P * 2 ^ nat ((n - 1) mod 30)"
    using P0 by (intro mult_left_mono) auto
  also have "\<dots> = 2 ^ (nat n - 1)" using half_split [OF n] by (simp only: P_def l)
  finally show ?thesis using tb(2) by linarith
qed

lemma list_ex_nonzero_mag:
  assumes "digits_in_range ys"
  shows "list_ex (\<lambda>d. d \<noteq> 0) ys \<longleftrightarrow> mag ys \<noteq> 0"
  using mag_eq_0_iff [OF assms] by (auto simp: list_ex_iff)

lemma mag_nonzero_digits: "mag ds \<noteq> 0 \<Longrightarrow> ds \<noteq> []"
  by auto

lemma asIntN_spec:
  assumes wf: "wellformed x" and n: "1 \<le> n"
  shows "\<exists>r. asIntN n x = Inr r \<and> invariant r \<and> allocatable (length (digits r)) \<and>
             val r = (val x + 2 ^ (nat n - 1)) mod 2 ^ nat n - 2 ^ (nat n - 1)"
proof -
  define H :: int where "H = 2 ^ (nat n - 1)"
  define a where "a = mag (digits x)"
  have M: "(2::int) ^ nat n = 2 * H" unfolding H_def using n by (rule pow_n_double)
  have H0: "0 < H" by (simp add: H_def)
  have M2: "2 * (2::int) ^ (nat n - 1) = 2 ^ nat n" using pow_n_double [OF n] by simp
  have i: "invariant x" and al: "allocatable (length (digits x))"
    using wf by (simp_all add: wellformed_def)
  have rx: "digits_in_range (digits x)" using i by (simp add: invariant_def)
  have a0: "0 \<le> a" unfolding a_def using rx by (rule mag_nonneg)
  have vx: "val x = (if sign x then - a else a)" by (simp add: val_def a_def)
  have fin: "asIntN n x = Inr r \<Longrightarrow> invariant r \<Longrightarrow> allocatable (length (digits r)) \<Longrightarrow>
       val r = (val x + H) mod (2 * H) - H \<Longrightarrow> ?thesis" for r
    by (simp only: M H_def) blast
  have same: "asIntN n x = Inr x \<Longrightarrow> a < H \<Longrightarrow> ?thesis"
  proof -
    assume e: "asIntN n x = Inr x" and lt: "a < H"
    have "- H \<le> val x" "val x < H" using vx a0 lt by (auto split: if_splits)
    then have "(val x + H) mod (2 * H) - H = val x" by (rule sw_small)
    then have "val x = (val x + H) mod (2 * H) - H" by simp
    with e i al show ?thesis by (rule fin)
  qed
  show ?thesis
  proof (cases "digits x = []")
    case True
    then have "asIntN n x = Inr x" "a = 0" by (simp_all add: asIntN_def a_def)
    then show ?thesis using same H0 by simp
  next
    case ne: False
    have n0: "\<not> n < 0" "n \<noteq> 0" using n by simp_all
    show ?thesis
    proof (cases "n \<ge> kMaxLengthBits")
      case True
      then have "asIntN n x = Inr x" using ne n0 by (simp add: asIntN_def)
      then show ?thesis
        using wellformed_mag_less_half [OF wf True] by (intro same) (simp_all add: a_def H_def)
    next
      case small: False
      then have nb: "n < 1073741824" by (simp add: kMaxLengthBits_def)
      define L where "L = nat ((n + 29) div 30)"
      show ?thesis
      proof (cases "length (digits x) < L")
        case True
        then have "asIntN n x = Inr x" using ne n0 small
          by (simp add: asIntN_def needed_digits [OF n nb] L_def [symmetric] Let_def)
        then show ?thesis
          using mag_less_half_short [OF rx n True [unfolded L_def]]
          by (intro same) (simp_all add: a_def H_def)
      next
        case long: False
        then have Ll: "L \<le> length (digits x)" by simp
        define t where "t = digits x ! (L - 1)"
        define j where "j = nat ((n - 1) mod 30)"
        define lo where "lo = mag (take (L - 1) (digits x))"
        define a' where "a' = a mod (2 * H)"
        have L1: "1 \<le> L" unfolding L_def using n by (rule needed_pos)
        have il: "L - 1 < length (digits x)" using L1 Ll by simp
        have tr: "0 \<le> t" "t < 1073741824"
          using rx il by (simp_all add: digits_in_range_def t_def)
        have j30: "j < 30" by (simp add: j_def)
        have ud: "unsignedDigit (digits x) (L - 1) = t"
          using il tr by (simp add: unsignedDigit_def digitB_def t_def toUint32_id del: One_nat_def)
        have cd: "js_shl 1 ((n - 1) mod 30) = 2 ^ j"
          unfolding j_def by (rule js_shl_1) simp_all
        have hbe: "(js_and t (2 ^ j) = 2 ^ j) = (2 ^ j \<le> t mod 2 ^ Suc j)"
          using tr j30 by (rule js_and_pow2_test)
        have lme: "js_and t (2 ^ j - 1) = t mod 2 ^ j"
          using j30 by (intro js_and_low_mask) simp
        have lex: "list_ex (\<lambda>d. d \<noteq> 0) (take (L - 1) (digits x)) = (lo \<noteq> 0)"
          unfolding lo_def by (rule list_ex_nonzero_mag) (rule digits_in_range_take [OF rx])
        have eq: "asIntN n x =
            (if length (digits x) = L \<and> t < 2 ^ j then Inr x
             else if \<not> 2 ^ j \<le> t mod 2 ^ Suc j then truncateToNBits n x
             else if \<not> sign x then truncateAndSubFromPowerOfTwo n x True
             else if t mod 2 ^ j = 0 then
               (if lo \<noteq> 0 then truncateAndSubFromPowerOfTwo n x False
                else if length (digits x) = L \<and> t = 2 ^ j then Inr x
                else truncateToNBits n x)
             else truncateAndSubFromPowerOfTwo n x False)"
          using ne n0 small long
          by (simp add: asIntN_def needed_digits [OF n nb] L_def [symmetric] Let_def
              ud cd hbe lme lex del: One_nat_def)
        have hi: "H \<le> a' \<longleftrightarrow> 2 ^ j \<le> t mod 2 ^ Suc j"
          using mag_mod_high_iff [OF rx n Ll [unfolded L_def]]
          by (simp only: H_def a_def a'_def M2 t_def j_def L_def)
        have half: "2 ^ j \<le> t mod 2 ^ Suc j \<Longrightarrow> a' = H \<longleftrightarrow> t mod 2 ^ j = 0 \<and> lo = 0"
          using mag_mod_half_iff [OF rx n Ll [unfolded L_def]]
          by (simp only: H_def a_def a'_def M2 t_def j_def L_def lo_def)
        have a'b: "0 \<le> a'" "a' < 2 * H" using H0 by (simp_all add: a'_def)
        have alL: "allocatable (nat ((n + 29) div 30))"
          using al Ll [unfolded L_def] by (rule allocatable_mono)
        have trunc: "\<exists>r. truncateToNBits n x = Inr r \<and> invariant r \<and>
             mag (digits r) = a' \<and> sign r = (sign x \<and> digits r \<noteq> []) \<and>
             allocatable (length (digits r))"
        proof -
          from truncateToNBits_spec [OF rx n nb Ll [unfolded L_def] al]
          obtain r where r: "truncateToNBits n x = Inr r" "invariant r"
            "mag (digits r) = mag (digits x) mod 2 ^ nat n" "sign r = (sign x \<and> digits r \<noteq> [])"
            "length (digits r) \<le> nat ((n + 29) div 30)" by blast
          have "allocatable (length (digits r))" using alL r(5) by (rule allocatable_mono)
          moreover have "mag (digits r) = a'" using r(3) by (simp only: a'_def a_def M)
          ultimately show ?thesis using r by blast
        qed
        have tsub: "\<exists>r. truncateAndSubFromPowerOfTwo n x s = Inr r \<and> invariant r \<and>
             mag (digits r) = (- a) mod (2 * H) \<and> sign r = (s \<and> digits r \<noteq> []) \<and>
             allocatable (length (digits r))" for s
        proof -
          from truncateAndSub_spec [OF rx n nb alL, of s]
          obtain r where r: "truncateAndSubFromPowerOfTwo n x s = Inr r" "invariant r"
            "mag (digits r) = (- mag (digits x)) mod 2 ^ nat n" "sign r = (s \<and> digits r \<noteq> [])"
            "length (digits r) \<le> nat ((n + 29) div 30)" by blast
          have "allocatable (length (digits r))" using alL r(5) by (rule allocatable_mono)
          moreover have "mag (digits r) = (- a) mod (2 * H)" using r(3) by (simp only: a_def M)
          ultimately show ?thesis using r by blast
        qed
        show ?thesis
        proof (cases "length (digits x) = L \<and> t < 2 ^ j")
          case True
          then have "asIntN n x = Inr x" using eq by simp
          moreover have "a < H" unfolding a_def H_def
            using True mag_less_half_top [OF rx n, folded L_def]
            by (simp add: t_def j_def del: One_nat_def)
          ultimately show ?thesis by (rule same)
        next
          case nA: False
          show ?thesis
          proof (cases "2 ^ j \<le> t mod 2 ^ Suc j")
            case nb': False
            then have lo': "a' < H" using hi by simp
            from trunc obtain r where r: "truncateToNBits n x = Inr r" "invariant r"
              "mag (digits r) = a'" "sign r = (sign x \<and> digits r \<noteq> [])"
              "allocatable (length (digits r))" by blast
            have e: "asIntN n x = Inr r" using eq nA nb' r(1) by simp
            have vr: "val r = (if sign x then - a' else a')"
              using r(3,4) by (auto simp: val_def)
            have "val r = (val x + H) mod (2 * H) - H"
            proof (cases "sign x")
              case True
              then show ?thesis
                using sw_neg_low [OF H0 lo' [unfolded a'_def]] vr vx by (simp add: a'_def)
            next
              case False
              then show ?thesis
                using sw_pos_low [OF H0 lo' [unfolded a'_def]] vr vx by (simp add: a'_def)
            qed
            with e r(2,5) show ?thesis by (rule fin)
          next
            case hb: True
            then have hi': "H \<le> a'" using hi by simp
            then have a'n0: "a mod (2 * H) \<noteq> 0" using H0 by (simp add: a'_def)
            have nm: "(- a) mod (2 * H) = 2 * H - a'"
              using neg_mod [OF H0, of a] a'n0 by (simp add: a'_def)
            have nmp: "0 < (- a) mod (2 * H)" using nm a'b by simp
            show ?thesis
            proof (cases "sign x")
              case pos: False
              from tsub [of True] obtain r where
                r: "truncateAndSubFromPowerOfTwo n x True = Inr r" "invariant r"
                "mag (digits r) = (- a) mod (2 * H)" "sign r = (True \<and> digits r \<noteq> [])"
                "allocatable (length (digits r))" by blast
              have e: "asIntN n x = Inr r" using eq nA hb pos r(1) by simp
              have "digits r \<noteq> []" using r(3) nmp by auto
              then have "val r = - ((- a) mod (2 * H))" using r(3,4) by (simp add: val_def)
              then have "val r = (val x + H) mod (2 * H) - H"
                using sw_pos_high [OF H0 hi' [unfolded a'_def]] vx pos nm by (simp add: a'_def)
              with e r(2,5) show ?thesis by (rule fin)
            next
              case neg: True
              note sw = sw_neg_high [OF H0 hi' [unfolded a'_def], folded a'_def]
              show ?thesis
              proof (cases "a' = H")
                case eqH: True
                then have z: "t mod 2 ^ j = 0" "lo = 0" using half [OF hb] by simp_all
                show ?thesis
                proof (cases "length (digits x) = L \<and> t = 2 ^ j")
                  case True
                  then have e: "asIntN n x = Inr x" using eq nA hb neg z by simp
                  have "last (digits x) = t" using True ne
                    by (simp add: last_conv_nth t_def del: One_nat_def)
                  moreover have "(2::int) ^ j < 2 ^ topBits n"
                    unfolding topBits_pred [OF n] j_def by simp
                  ultimately have "a < 2 * H" unfolding a_def M [symmetric]
                    using mag_less_pow_n_iff_top [OF rx n, folded L_def] True by simp
                  then have "a' = a" unfolding a'_def using a0 by (simp add: mod_pos_pos_trivial)
                  then have "val x = - H" using eqH vx neg by simp
                  then have "val x = (val x + H) mod (2 * H) - H" by simp
                  with e i al show ?thesis by (rule fin)
                next
                  case False
                  from trunc obtain r where r: "truncateToNBits n x = Inr r" "invariant r"
                    "mag (digits r) = a'" "sign r = (sign x \<and> digits r \<noteq> [])"
                    "allocatable (length (digits r))" by blast
                  have e: "asIntN n x = Inr r" using eq nA hb neg z False r(1) by auto
                  have "digits r \<noteq> []" using r(3) eqH H0 by auto
                  then have "val r = - H" using r(3,4) neg eqH by (simp add: val_def)
                  then have "val r = (val x + H) mod (2 * H) - H"
                    using sw vx neg eqH by simp
                  with e r(2,5) show ?thesis by (rule fin)
                qed
              next
                case neH: False
                then have nz: "\<not> (t mod 2 ^ j = 0 \<and> lo = 0)" using half [OF hb] by simp
                from tsub [of False] obtain r where
                  r: "truncateAndSubFromPowerOfTwo n x False = Inr r" "invariant r"
                  "mag (digits r) = (- a) mod (2 * H)" "sign r = (False \<and> digits r \<noteq> [])"
                  "allocatable (length (digits r))" by blast
                have e: "asIntN n x = Inr r" using eq nA hb neg nz r(1) by auto
                have "val r = 2 * H - a'" using r(3,4) nm by (simp add: val_def)
                then have "val r = (val x + H) mod (2 * H) - H"
                  using sw vx neg neH by simp
                with e r(2,5) show ?thesis by (rule fin)
              qed
            qed
          qed
        qed
      qed
    qed
  qed
qed

lemma toInt32_mod30: "toInt32 v mod 1073741824 = v mod 1073741824"
proof -
  have "take_bit 30 (signed_take_bit 31 v) = take_bit 30 v"
    by (rule take_bit_signed_take_bit) simp
  then show ?thesis by (simp add: toInt32_def take_bit_eq_mod)
qed

lemma pow_split_30:
  assumes "0 < s" "s < 30"
  shows "(2::int) ^ nat s * 2 ^ nat (30 - s) = 1073741824"
proof -
  have "nat s + nat (30 - s) = 30" using assms by simp
  then have "(2::int) ^ nat s * 2 ^ nat (30 - s) = 2 ^ 30"
    by (simp only: power_add [symmetric])
  then show ?thesis by simp
qed

lemma or_disjoint_add:
  fixes q c :: int
  assumes "0 \<le> c" "c < 2 ^ k"
  shows "(2 ^ k * q) OR c = 2 ^ k * q + c"
proof -
  have c: "take_bit k c = c" using assms by (simp add: take_bit_int_eq_self)
  have "push_bit k q + take_bit k c = push_bit k q OR take_bit k c"
    by (rule disjunctive_add) (auto simp: bit_push_bit_iff bit_take_bit_iff)
  then have "push_bit k q + c = push_bit k q OR c" by (simp only: c)
  then show ?thesis by (simp add: push_bit_eq_mult mult.commute)
qed

lemma shifted_digit:
  assumes d: "0 \<le> d" "d < 1073741824" and k: "0 < k" "k < 30"
    and c: "0 \<le> c" "c < 2 ^ nat k"
  shows "toInt32 (js_or (js_and (js_shl d k) 0x3FFFFFFF) c)
           = 2 ^ nat k * (d mod 2 ^ nat (30 - k)) + c"
    and "0 \<le> 2 ^ nat k * (d mod 2 ^ nat (30 - k)) + c"
    and "2 ^ nat k * (d mod 2 ^ nat (30 - k)) + c < 1073741824"
proof -
  define A where "A = 2 ^ nat k * (d mod 2 ^ nat (30 - k))"
  have B: "(2::int) ^ nat k * 2 ^ nat (30 - k) = 1073741824" using k by (rule pow_split_30)
  have k32: "k mod 32 = k" using k by simp
  have "js_and (js_shl d k) 0x3FFFFFFF = js_shl d k mod 1073741824" by (rule js_and_mask30)
  also have "\<dots> = push_bit (nat k) (toInt32 d) mod 1073741824"
    by (simp only: js_shl_def k32 toInt32_mod30)
  also have "\<dots> = (2 ^ nat k * d) mod (2 ^ nat k * 2 ^ nat (30 - k))"
    using d by (simp only: B) (simp add: toInt32_id push_bit_eq_mult mult.commute)
  also have "\<dots> = A" unfolding A_def by (rule mult_mod_right [symmetric])
  finally have a: "js_and (js_shl d k) 0x3FFFFFFF = A" .
  have m1: "0 \<le> d mod 2 ^ nat (30 - k)" by simp
  have "d mod 2 ^ nat (30 - k) < 2 ^ nat (30 - k)" by (rule pos_mod_bound) simp
  then have m2: "d mod 2 ^ nat (30 - k) + 1 \<le> 2 ^ nat (30 - k)" by linarith
  note m = m1 m2
  have A0: "0 \<le> A" unfolding A_def using m(1) by simp
  have "2 ^ nat k * (d mod 2 ^ nat (30 - k) + 1) \<le> (2::int) ^ nat k * 2 ^ nat (30 - k)"
    using m(2) by (intro mult_left_mono) simp_all
  then have Aub: "A + 2 ^ nat k \<le> 1073741824" unfolding A_def B by (simp add: algebra_simps)
  have r: "0 \<le> A + c" "A + c < 1073741824" using A0 Aub c by linarith+
  have c31: "c < 2147483648" using Aub A0 c by linarith
  have "js_or A c = A OR c"
    using A0 Aub c c31 by (simp add: js_or_def toInt32_id)
  also have "\<dots> = A + c" unfolding A_def using c by (rule or_disjoint_add)
  finally have "js_or A c = A + c" .
  then show "toInt32 (js_or (js_and (js_shl d k) 0x3FFFFFFF) c)
           = 2 ^ nat k * (d mod 2 ^ nat (30 - k)) + c"
    unfolding a using r by (simp add: toInt32_id A_def)
  show "0 \<le> 2 ^ nat k * (d mod 2 ^ nat (30 - k)) + c" using r(1) by (simp only: A_def)
  show "2 ^ nat k * (d mod 2 ^ nat (30 - k)) + c < 1073741824" using r(2) by (simp only: A_def)
qed

lemma shr_carry:
  assumes d: "0 \<le> d" "d < 1073741824" and s: "0 < s" "s < 30"
  shows "js_shr d s = d div 2 ^ nat s" "0 \<le> d div 2 ^ nat s"
    "d div 2 ^ nat s < 2 ^ nat (30 - s)"
proof -
  show "js_shr d s = d div 2 ^ nat s" using d s by (intro js_shr_nonneg) simp_all
  show "0 \<le> d div 2 ^ nat s" using d by (simp add: pos_imp_zdiv_nonneg_iff)
  have lt: "d < 2 ^ nat s * 2 ^ nat (30 - s)" using pow_split_30 [OF s] d by simp
  show "d div 2 ^ nat s < 2 ^ nat (30 - s)"
  proof (rule ccontr)
    assume "\<not> d div 2 ^ nat s < 2 ^ nat (30 - s)"
    then have "(2::int) ^ nat s * 2 ^ nat (30 - s) \<le> 2 ^ nat s * (d div 2 ^ nat s)"
      by (intro mult_left_mono) simp_all
    moreover have "2 ^ nat s * (d div 2 ^ nat s) \<le> d"
    proof -
      have "d = 2 ^ nat s * (d div 2 ^ nat s) + d mod 2 ^ nat s" by simp
      moreover have "0 \<le> d mod 2 ^ nat s" by simp
      ultimately show ?thesis by linarith
    qed
    ultimately show False using lt by linarith
  qed
qed

lemma digit_recombine:
  fixes d K S :: int
  assumes "0 < S"
  shows "K * (d mod S) + K * S * (d div S) = K * d"
proof -
  have e: "d mod S + S * (d div S) = d" by simp
  have "K * (d mod S) + K * S * (d div S) = K * (d mod S + S * (d div S))"
    by (simp only: distrib_left mult.assoc)
  then show ?thesis by (simp only: e)
qed

lemma shr_loop_spec:
  assumes "digits_in_range ds" "0 < s" "s < 30" "0 \<le> c" "c < 2 ^ nat (30 - s)"
  shows "digits_in_range (shr_loop ds s c) \<and> length (shr_loop ds s c) = Suc (length ds) \<and>
         mag (shr_loop ds s c) = c + 2 ^ nat (30 - s) * mag ds"
  using assms
proof (induction ds arbitrary: c)
  case Nil
  have "c < 1073741824"
  proof -
    have "(2::int) ^ nat (30 - s) \<le> 2 ^ 30" using Nil by (intro power_increasing) simp_all
    then show ?thesis using Nil by simp
  qed
  then show ?case using Nil by (simp add: toInt32_id digits_in_range_def)
next
  case (Cons d ds)
  have d: "0 \<le> d" "d < 1073741824" and r: "digits_in_range ds"
    using Cons.prems(1) by (simp_all add: digits_in_range_def)
  have s: "0 < s" "s < 30" by fact+
  have k: "0 < 30 - s" "30 - s < 30" using s by simp_all
  have ks: "nat (30 - (30 - s)) = nat s" by simp
  note dg = shifted_digit [OF d k Cons.prems(4,5), unfolded ks]
  note cr = shr_carry [OF d s]
  note ih = Cons.IH [OF r s cr(2,3), unfolded cr(1) [symmetric]]
  have B: "(2::int) ^ nat (30 - s) * 2 ^ nat s = 1073741824"
    using pow_split_30 [OF s] by (simp add: mult.commute)
  have "mag (shr_loop (d # ds) s c)
        = (2 ^ nat (30 - s) * (d mod 2 ^ nat s) + c)
          + 1073741824 * (d div 2 ^ nat s + 2 ^ nat (30 - s) * mag ds)"
    using ih dg(1) by (simp add: cr(1))
  also have "\<dots> = c + (2 ^ nat (30 - s) * (d mod 2 ^ nat s)
                        + 2 ^ nat (30 - s) * 2 ^ nat s * (d div 2 ^ nat s))
                     + 2 ^ nat (30 - s) * (1073741824 * mag ds)"
    unfolding B by (simp add: algebra_simps)
  also have "\<dots> = c + 2 ^ nat (30 - s) * d + 2 ^ nat (30 - s) * (1073741824 * mag ds)"
    by (subst digit_recombine) simp_all
  also have "\<dots> = c + 2 ^ nat (30 - s) * mag (d # ds)" by (simp add: algebra_simps)
  finally have m: "mag (shr_loop (d # ds) s c) = c + 2 ^ nat (30 - s) * mag (d # ds)" .
  have "digits_in_range (shr_loop (d # ds) s c)"
    using ih dg by (simp add: digits_in_range_def cr(1))
  moreover have "length (shr_loop (d # ds) s c) = Suc (length (d # ds))" using ih by simp
  ultimately show ?case using m by blast
qed

lemma shl_loop_spec:
  assumes "digits_in_range xs" "0 < s" "s < 30" "0 \<le> c" "c < 2 ^ nat s"
    and "shl_loop xs s c = (rs, c')"
  shows "digits_in_range rs \<and> length rs = length xs \<and> 0 \<le> c' \<and> c' < 2 ^ nat s \<and>
         mag rs + 1073741824 ^ length xs * c' = c + 2 ^ nat s * mag xs \<and>
         c' = (if xs = [] then c else js_shr (last xs) (30 - s))"
  using assms
proof (induction xs arbitrary: c rs c')
  case Nil
  then show ?case by (simp add: digits_in_range_def)
next
  case (Cons d ds)
  have d: "0 \<le> d" "d < 1073741824" and r: "digits_in_range ds"
    using Cons.prems(1) by (simp_all add: digits_in_range_def)
  have s: "0 < s" "s < 30" by fact+
  have k: "0 < 30 - s" "30 - s < 30" using s by simp_all
  have ks: "nat (30 - (30 - s)) = nat s" by simp
  note dg = shifted_digit [OF d s Cons.prems(4,5)]
  note cr = shr_carry [OF d k, unfolded ks]
  obtain rs' where sl: "shl_loop ds s (js_shr d (30 - s)) = (rs', c')"
    and rs: "rs = toInt32 (js_or (js_and (js_shl d s) 0x3FFFFFFF) c) # rs'"
    using Cons.prems(6) by (auto simp: Let_def split: prod.splits)
  note ih = Cons.IH [OF r s cr(2,3) [folded cr(1)] sl]
  have B: "(2::int) ^ nat s * 2 ^ nat (30 - s) = 1073741824" using s by (rule pow_split_30)
  have ihm: "mag rs' + 1073741824 ^ length ds * c' = d div 2 ^ nat (30 - s) + 2 ^ nat s * mag ds"
    using ih unfolding cr(1) by blast
  have "mag rs + 1073741824 ^ length (d # ds) * c'
        = (2 ^ nat s * (d mod 2 ^ nat (30 - s)) + c)
          + 1073741824 * (mag rs' + 1073741824 ^ length ds * c')"
    unfolding rs dg(1) by (simp add: algebra_simps)
  also have "\<dots> = (2 ^ nat s * (d mod 2 ^ nat (30 - s)) + c)
          + 1073741824 * (d div 2 ^ nat (30 - s) + 2 ^ nat s * mag ds)"
    by (simp only: ihm)
  also have "\<dots> = c + (2 ^ nat s * (d mod 2 ^ nat (30 - s))
                        + 2 ^ nat s * 2 ^ nat (30 - s) * (d div 2 ^ nat (30 - s)))
                     + 2 ^ nat s * (1073741824 * mag ds)"
    unfolding B by (simp add: algebra_simps)
  also have "\<dots> = c + 2 ^ nat s * d + 2 ^ nat s * (1073741824 * mag ds)"
    by (subst digit_recombine) simp_all
  also have "\<dots> = c + 2 ^ nat s * mag (d # ds)" by (simp add: algebra_simps)
  finally have m: "mag rs + 1073741824 ^ length (d # ds) * c' = c + 2 ^ nat s * mag (d # ds)" .
  have "digits_in_range rs" using ih dg unfolding rs by (simp add: digits_in_range_def)
  moreover have "length rs = length (d # ds)" using ih unfolding rs by simp
  moreover have "c' = (if d # ds = [] then c else js_shr (last (d # ds)) (30 - s))"
  proof -
    from ih have "c' = (if ds = [] then js_shr d (30 - s) else js_shr (last ds) (30 - s))"
      by blast
    then show ?thesis by simp
  qed
  ultimately show ?case using m ih by blast
qed

lemma addOne_loop_spec:
  assumes "digits_in_range xs" "c = 0 \<or> c = 1" "addOne_loop xs c = (rs, c')"
  shows "digits_in_range rs \<and> length rs = length xs \<and> (c' = 0 \<or> c' = 1) \<and>
         mag rs + 1073741824 ^ length xs * c' = mag xs + c"
  using assms
proof (induction xs arbitrary: c rs c')
  case Nil
  then show ?case by (simp add: digits_in_range_def)
next
  case (Cons d ds)
  have d: "0 \<le> d" "d < 1073741824" and r: "digits_in_range ds"
    using Cons.prems(1) by (simp_all add: digits_in_range_def)
  define t where "t = d + c"
  have t: "0 \<le> t" "t \<le> 1073741824" using d Cons.prems(2) by (auto simp: t_def)
  have cy: "js_shr t 30 = t div 1073741824"
    using t by (simp add: js_shr_30 mod_pos_pos_trivial)
  have cb: "t div 1073741824 = 0 \<or> t div 1073741824 = 1" using t by (cases "t = 1073741824") auto
  have dg: "toInt32 (js_and t 0x3FFFFFFF) = t mod 1073741824"
    by (simp add: js_and_mask30 toInt32_id)
  obtain rs' where sl: "addOne_loop ds (js_shr t 30) = (rs', c')"
    and rs: "rs = toInt32 (js_and t 0x3FFFFFFF) # rs'"
    using Cons.prems(3) by (auto simp: Let_def t_def split: prod.splits)
  note ih = Cons.IH [OF r cb [folded cy] sl]
  have "mag rs + 1073741824 ^ length (d # ds) * c'
        = t mod 1073741824 + 1073741824 * (mag rs' + 1073741824 ^ length ds * c')"
    unfolding rs dg by (simp add: algebra_simps)
  also have "\<dots> = t mod 1073741824 + 1073741824 * (mag ds + t div 1073741824)"
    using ih by (simp add: cy)
  also have "\<dots> = t + 1073741824 * mag ds" by (simp add: algebra_simps)
  finally have m: "mag rs + 1073741824 ^ length (d # ds) * c' = mag (d # ds) + c"
    by (simp add: t_def)
  have "digits_in_range rs" using ih unfolding rs dg by (simp add: digits_in_range_def)
  moreover have "length rs = length (d # ds)" using ih unfolding rs by simp
  ultimately show ?case using m ih by blast
qed

lemma div_add_mult_small:
  fixes a P c :: int
  assumes "0 \<le> a" "a < P"
  shows "(a + P * c) div P = c"
proof -
  have "(a + P * c) div P = a div P + c" using assms by simp
  then show ?thesis using assms by (simp add: div_pos_pos_trivial)
qed

lemma mag_drop:
  assumes r: "digits_in_range xs"
  shows "mag (drop k xs) = mag xs div 1073741824 ^ k"
proof (cases "k \<le> length xs")
  case True
  have "mag xs = mag (take k xs @ drop k xs)" by simp
  also have "\<dots> = mag (take k xs) + 1073741824 ^ k * mag (drop k xs)"
    using True by (simp only: mag_append) simp
  finally have e: "mag xs = mag (take k xs) + 1073741824 ^ k * mag (drop k xs)" .
  have rt: "digits_in_range (take k xs)" using r by (rule digits_in_range_take)
  have "0 \<le> mag (take k xs)" using rt by (rule mag_nonneg)
  moreover have "mag (take k xs) < 1073741824 ^ k" using mag_less [OF rt] True by simp
  ultimately show ?thesis unfolding e by (rule div_add_mult_small [symmetric])
next
  case False
  then have "(1073741824::int) ^ length xs \<le> 1073741824 ^ k"
    by (intro power_increasing) simp_all
  then have "mag xs < 1073741824 ^ k" using mag_less [OF r] by linarith
  then have "mag xs div 1073741824 ^ k = 0" using mag_nonneg [OF r] by (simp add: div_pos_pos_trivial)
  then show ?thesis using False by simp
qed

lemma mag_div_shift:
  assumes r: "digits_in_range xs"
  shows "mag xs div (1073741824 ^ k * 2 ^ s) = mag (drop k xs) div 2 ^ s"
proof -
  have "mag xs div (1073741824 ^ k * 2 ^ s) = mag xs div 1073741824 ^ k div 2 ^ s"
    by (rule zdiv_zmult2_eq) simp
  then show ?thesis by (simp only: mag_drop [OF r])
qed

lemma mag_mod_shift:
  assumes r: "digits_in_range xs" and k: "k < length xs" and s: "s \<le> 30"
  shows "mag xs mod (1073741824 ^ k * 2 ^ s)
         = mag (take k xs) + 1073741824 ^ k * (xs ! k mod 2 ^ s)"
proof -
  have rt: "digits_in_range (take k xs)" using r by (rule digits_in_range_take)
  have a0: "0 \<le> mag (take k xs)" using rt by (rule mag_nonneg)
  have a1: "mag (take k xs) < 1073741824 ^ k" using mag_less [OF rt] k by simp
  have "mag xs mod (1073741824 ^ k * 2 ^ s)
        = (mag (take k xs) + 1073741824 ^ k * (xs ! k + 1073741824 * mag (drop (Suc k) xs)))
            mod (1073741824 ^ k * 2 ^ s)"
    using mag_split_at [OF k] by simp
  also have "\<dots> = mag (take k xs)
        + 1073741824 ^ k * ((xs ! k + 1073741824 * mag (drop (Suc k) xs)) mod 2 ^ s)"
    using a0 a1 by (rule mod_split) simp
  also have "(xs ! k + 1073741824 * mag (drop (Suc k) xs)) mod 2 ^ s = xs ! k mod 2 ^ s"
    using s by (rule top_digit_mod)
  finally show ?thesis .
qed

lemma mag_inj:
  assumes "digits_in_range xs" "digits_in_range ys"
    and "xs = [] \<or> last xs \<noteq> 0" "ys = [] \<or> last ys \<noteq> 0"
    and "mag xs = mag ys"
  shows "xs = ys"
  using assms
proof (induction xs arbitrary: ys)
  case Nil
  then have "mag ys = 0" by simp
  then have z: "\<forall>d \<in> set ys. d = 0" using mag_eq_0_iff [OF Nil.prems(2)] by simp
  show ?case
  proof (cases "ys = []")
    case False
    then have "last ys \<in> set ys" by simp
    then show ?thesis using z Nil.prems(4) False by auto
  qed simp
next
  case (Cons d ds)
  show ?case
  proof (cases ys)
    case Nil
    then have "mag (d # ds) = 0" using Cons.prems(5) by simp
    then have z: "\<forall>e \<in> set (d # ds). e = 0" using mag_eq_0_iff [OF Cons.prems(1)] by simp
    have "last (d # ds) \<in> set (d # ds)" by (rule last_in_set) simp
    then have "last (d # ds) = 0" using z by blast
    then show ?thesis using Cons.prems(3) by simp
  next
    case (Cons e es)
    have d: "0 \<le> d" "d < 1073741824" and rd: "digits_in_range ds"
      using Cons.prems(1) by simp_all
    have e: "0 \<le> e" "e < 1073741824" and re: "digits_in_range es"
      using Cons.prems(2) Cons by simp_all
    have eq: "d + 1073741824 * mag ds = e + 1073741824 * mag es"
      using Cons.prems(5) Cons by simp
    have "(d + 1073741824 * mag ds) mod 1073741824 = d" using d by (simp add: mod_pos_pos_trivial)
    moreover have "(e + 1073741824 * mag es) mod 1073741824 = e"
      using e by (simp add: mod_pos_pos_trivial)
    ultimately have de: "d = e" using eq by simp
    then have m: "mag ds = mag es" using eq by simp
    have t1: "ds = [] \<or> last ds \<noteq> 0" using Cons.prems(3) by (cases ds) auto
    have t2: "es = [] \<or> last es \<noteq> 0" using Cons.prems(4) Cons by (cases es) auto
    have "ds = es" using rd re t1 t2 m by (rule Cons.IH)
    then show ?thesis using de Cons by simp
  qed
qed

lemma invariant_val_inj:
  assumes a: "invariant a" and b: "invariant b" and v: "val a = val b"
  shows "a = b"
proof -
  have ra: "digits_in_range (digits a)" and rb: "digits_in_range (digits b)"
    using a b by (simp_all add: invariant_def)
  have la: "digits a = [] \<or> last (digits a) \<noteq> 0" and lb: "digits b = [] \<or> last (digits b) \<noteq> 0"
    using a b by (auto simp: invariant_def)
  have ma: "0 \<le> mag (digits a)" and mb: "0 \<le> mag (digits b)"
    using ra rb by (simp_all add: mag_nonneg)
  have z: "mag (digits c) = 0 \<Longrightarrow> invariant c \<Longrightarrow> \<not> sign c" for c
  proof -
    assume m: "mag (digits c) = 0" and c: "invariant c"
    have "digits c = []"
    proof (rule mag_inj)
      show "digits_in_range (digits c)" using c by (simp add: invariant_def)
      show "digits c = [] \<or> last (digits c) \<noteq> 0" using c by (auto simp: invariant_def)
      show "mag (digits c) = mag []" using m by simp
    qed simp_all
    then show ?thesis using c by (simp add: invariant_def)
  qed
  have sg: "sign a = sign b"
  proof (rule ccontr)
    assume "sign a \<noteq> sign b"
    then have "mag (digits a) = 0 \<and> mag (digits b) = 0"
      using v ma mb by (auto simp: val_def split: if_splits)
    then have "\<not> sign a" "\<not> sign b" using z a b by blast+
    then show False using \<open>sign a \<noteq> sign b\<close> by simp
  qed
  then have "mag (digits a) = mag (digits b)" using v by (auto simp: val_def split: if_splits)
  with ra rb la lb have "digits a = digits b" by (rule mag_inj)
  then show ?thesis using sg by simp
qed

lemma absoluteAddOne_spec:
  assumes r: "digits_in_range xs"
  shows "digits_in_range (digits (absoluteAddOne xs sg)) \<and>
         mag (digits (absoluteAddOne xs sg)) = mag xs + 1 \<and>
         sign (absoluteAddOne xs sg) = sg \<and>
         length (digits (absoluteAddOne xs sg)) \<le> Suc (length xs)"
proof -
  obtain rs c where l: "addOne_loop xs 1 = (rs, c)" by (cases "addOne_loop xs 1")
  have one: "(1::int) = 0 \<or> (1::int) = 1" by simp
  note sp = addOne_loop_spec [OF r one l]
  have rr: "digits_in_range rs" and len: "length rs = length xs" and cb: "c = 0 \<or> c = 1"
    and m: "mag rs + 1073741824 ^ length xs * c = mag xs + 1" using sp by blast+
  have t1: "toInt32 1 = 1" by (simp add: toInt32_id)
  show ?thesis
  proof (cases "c = 0")
    case True
    then have "absoluteAddOne xs sg = \<lparr>sign = sg, digits = rs\<rparr>"
      by (simp add: absoluteAddOne_def l)
    then show ?thesis using rr len m True by simp
  next
    case False
    then have c1: "c = 1" using cb by simp
    have "absoluteAddOne xs sg = \<lparr>sign = sg, digits = rs @ [1]\<rparr>"
      using False by (simp add: absoluteAddOne_def l t1)
    moreover have "mag (rs @ [1]) = mag xs + 1" using m c1 len by (simp add: mag_snoc)
    ultimately show ?thesis using rr len by simp
  qed
qed

lemma js_not_digit: "0 \<le> d \<Longrightarrow> d < 1073741824 \<Longrightarrow> js_not d \<noteq> 0"
  by (simp add: js_not_def toInt32_id not_int_def)

lemma map_toInt32_digits: "digits_in_range xs \<Longrightarrow> map toInt32 xs = xs"
  by (induction xs) (simp_all add: toInt32_id)

lemma toShiftAmount_multi: "1 < length (digits y) \<Longrightarrow> toShiftAmount y = - 1"
  by (simp add: toShiftAmount_def)

lemma toShiftAmount_single:
  assumes i: "invariant y" and l: "length (digits y) = 1"
  shows "toShiftAmount y = mag (digits y)" "1 \<le> mag (digits y)" "mag (digits y) < 1073741824"
proof -
  obtain d where d: "digits y = [d]" using l by (cases "digits y") auto
  have r: "0 \<le> d" "d < 1073741824" "d \<noteq> 0" using i d by (simp_all add: invariant_def)
  have "unsignedDigit [d] 0 = d" using r by (simp add: unsignedDigit_def digitB_def toUint32_id)
  then show "toShiftAmount y = mag (digits y)"
    using r by (simp add: toShiftAmount_def d kMaxLengthBits_def)
  show "1 \<le> mag (digits y)" "mag (digits y) < 1073741824" using r by (simp_all add: d)
qed

lemma shift_split:
  assumes "0 \<le> n"
  shows "(2::int) ^ nat n = 1073741824 ^ nat (n div 30) * 2 ^ nat (n mod 30)"
proof -
  have "n = 30 * (n div 30) + n mod 30" by simp
  moreover have "0 \<le> n div 30" "0 \<le> n mod 30" using assms by simp_all
  ultimately have "nat n = 30 * nat (n div 30) + nat (n mod 30)"
    by (metis nat_add_distrib nat_mult_distrib nat_numeral zero_le_numeral mult_nonneg_nonneg)
  then have "(2::int) ^ nat n = 2 ^ (30 * nat (n div 30)) * 2 ^ nat (n mod 30)"
    by (simp only: power_add)
  then show ?thesis by (simp only: pow30)
qed

lemma invariant_nonempty_pos:
  assumes "invariant x" "digits x \<noteq> []"
  shows "0 < mag (digits x)"
proof -
  have "(0::int) < 1073741824 ^ (length (digits x) - 1)" by simp
  then show ?thesis using invariant_mag_lower [OF assms] by linarith
qed

lemma rightShiftByMaximum_spec:
  assumes ix: "invariant x" and ne: "digits x \<noteq> []" and lt: "mag (digits x) < 2 ^ N"
  shows "invariant (rightShiftByMaximum (sign x)) \<and>
         val (rightShiftByMaximum (sign x)) = val x div 2 ^ N \<and>
         mag (digits (rightShiftByMaximum (sign x)))
           = mag (digits x) div 2 ^ N + (if sign x \<and> mag (digits x) mod 2 ^ N \<noteq> 0 then 1 else 0)"
proof -
  define a where "a = mag (digits x)"
  have a0: "0 < a" unfolding a_def using ix ne by (rule invariant_nonempty_pos)
  have d: "a div 2 ^ N = 0" and m: "a mod 2 ^ N = a"
    using a0 lt by (simp_all add: a_def [symmetric] div_pos_pos_trivial mod_pos_pos_trivial)
  have nd: "(- a) div 2 ^ N = - 1"
    using a0 by (simp add: zdiv_zminus1_eq_if d m)
  show ?thesis
  proof (cases "sign x")
    case True
    then have r: "rightShiftByMaximum (sign x) = \<lparr>sign = True, digits = [1]\<rparr>"
      by (simp add: rightShiftByMaximum_def oneDigit_def toInt32_id)
    have "invariant \<lparr>sign = True, digits = [1]\<rparr>" by (simp add: invariant_def)
    moreover have "val \<lparr>sign = True, digits = [1]\<rparr> = val x div 2 ^ N"
      using True nd by (simp add: val_def a_def)
    moreover have "mag (digits \<lparr>sign = True, digits = [1]\<rparr>)
           = mag (digits x) div 2 ^ N + (if sign x \<and> mag (digits x) mod 2 ^ N \<noteq> 0 then 1 else 0)"
      using True d m a0 by (simp add: a_def [symmetric])
    ultimately show ?thesis unfolding r by blast
  next
    case False
    then have r: "rightShiftByMaximum (sign x) = zero" by (simp add: rightShiftByMaximum_def)
    show ?thesis unfolding r using False d by (simp add: val_def a_def [symmetric])
  qed
qed

lemma shr_digits_spec:
  assumes r: "digits_in_range xs" and k: "k < length xs" and s: "0 < s" "s < 30"
  shows "digits_in_range (shr_loop (drop (k + 1) xs) s (js_shr (xs ! k) s))"
    and "mag (shr_loop (drop (k + 1) xs) s (js_shr (xs ! k) s)) = mag (drop k xs) div 2 ^ nat s"
proof -
  have t: "0 \<le> xs ! k" "xs ! k < 1073741824" using digits_in_range_nth [OF r k] by simp_all
  have rd: "digits_in_range (drop (k + 1) xs)" using r by (rule digits_in_range_drop)
  note cr = shr_carry [OF t s]
  note sp = shr_loop_spec [OF rd s cr(2,3), folded cr(1)]
  show "digits_in_range (shr_loop (drop (k + 1) xs) s (js_shr (xs ! k) s))" using sp by blast
  have B: "(1073741824::int) = 2 ^ nat s * 2 ^ nat (30 - s)" using pow_split_30 [OF s] by simp
  have dk: "drop k xs = xs ! k # drop (k + 1) xs" using k by (simp add: Cons_nth_drop_Suc)
  have "mag (drop k xs) = xs ! k + 1073741824 * mag (drop (k + 1) xs)"
    by (subst dk) simp
  also have "\<dots> = xs ! k + (2 ^ nat s * 2 ^ nat (30 - s)) * mag (drop (k + 1) xs)"
    by (simp only: B [symmetric])
  finally have "mag (drop k xs) = xs ! k + 2 ^ nat s * (2 ^ nat (30 - s) * mag (drop (k + 1) xs))"
    by (simp only: mult.assoc)
  then have "mag (drop k xs) div 2 ^ nat s
        = 2 ^ nat (30 - s) * mag (drop (k + 1) xs) + xs ! k div 2 ^ nat s"
    by (simp only: div_mult_self2 [of "2 ^ nat s"] ) simp
  moreover have "mag (shr_loop (drop (k + 1) xs) s (js_shr (xs ! k) s))
        = xs ! k div 2 ^ nat s + 2 ^ nat (30 - s) * mag (drop (k + 1) xs)"
    using sp by (simp add: cr(1))
  ultimately show "mag (shr_loop (drop (k + 1) xs) s (js_shr (xs ! k) s))
      = mag (drop k xs) div 2 ^ nat s" by simp
qed

lemma rightShiftByAbsolute_spec:
  assumes wf: "wellformed x" and nx: "digits x \<noteq> []"
    and iy: "invariant y" and ny: "digits y \<noteq> []"
  shows "\<exists>r. rightShiftByAbsolute x y = Inr r \<and> invariant r \<and>
             val r = val x div 2 ^ nat (mag (digits y)) \<and>
             mag (digits r) = mag (digits x) div 2 ^ nat (mag (digits y))
               + (if sign x \<and> mag (digits x) mod 2 ^ nat (mag (digits y)) \<noteq> 0 then 1 else 0)"
proof -
  define N where "N = nat (mag (digits y))"
  define a where "a = mag (digits x)"
  have ix: "invariant x" and al: "allocatable (length (digits x))"
    using wf by (simp_all add: wellformed_def)
  have rx: "digits_in_range (digits x)" using ix by (simp add: invariant_def)
  have a0: "0 \<le> a" unfolding a_def using rx by (rule mag_nonneg)
  have maxi: "rightShiftByAbsolute x y = Inr (rightShiftByMaximum (sign x)) \<Longrightarrow> a < 2 ^ N
      \<Longrightarrow> ?thesis"
    using rightShiftByMaximum_spec [OF ix nx, of N]
    by (simp only: a_def N_def) blast
  show ?thesis
  proof (cases "1 < length (digits y)")
    case True
    then have "toShiftAmount y = - 1" by (rule toShiftAmount_multi)
    then have e: "rightShiftByAbsolute x y = Inr (rightShiftByMaximum (sign x))"
      by (simp add: rightShiftByAbsolute_def)
    have "(1073741824::int) ^ 1 \<le> 1073741824 ^ (length (digits y) - 1)"
      using True by (intro power_increasing) simp_all
    then have "kMaxLengthBits \<le> mag (digits y)"
      using invariant_mag_lower [OF iy ny] by (simp add: kMaxLengthBits_def)
    then have "a < 2 ^ N" unfolding a_def N_def using wf by (intro wellformed_mag_less_big)
    with e show ?thesis by (rule maxi)
  next
    case False
    then have ly: "length (digits y) = 1" using ny by (cases "digits y") auto
    define sh where "sh = mag (digits y)"
    note ts = toShiftAmount_single [OF iy ly, folded sh_def]
    define k where "k = nat (sh div 30)"
    define s where "s = sh mod 30"
    have sh0: "0 \<le> sh" using ts(2) by simp
    have jd: "js_div sh 30 = sh div 30" using sh0 ts(3) by (intro js_div_nonneg) simp_all
    have jm: "js_mod sh 30 = s" unfolding s_def using sh0 ts(3) by (intro js_mod_nonneg) simp_all
    have sb: "0 \<le> s" "s < 30" by (simp_all add: s_def)
    have pw: "(2::int) ^ N = 1073741824 ^ k * 2 ^ nat s"
      unfolding N_def sh_def [symmetric] k_def s_def using sh0 by (rule shift_split)
    have nneg: "\<not> sh < 0" using sh0 by simp
    show ?thesis
    proof (cases "length (digits x) \<le> k")
      case True
      then have e: "rightShiftByAbsolute x y = Inr (rightShiftByMaximum (sign x))"
        using nneg by (simp add: rightShiftByAbsolute_def ts(1) jd k_def [symmetric] Let_def)
      have "a < 1073741824 ^ length (digits x)" unfolding a_def using rx by (rule mag_less)
      also have "\<dots> \<le> 1073741824 ^ k" using True by (intro power_increasing) simp_all
      also have "\<dots> \<le> 1073741824 ^ k * 2 ^ nat s" by simp
      finally have "a < 2 ^ N" by (simp only: pw)
      with e show ?thesis by (rule maxi)
    next
      case long: False
      then have kl: "k < length (digits x)" by simp
      define t where "t = digits x ! k"
      define lo where "lo = mag (take k (digits x))"
      define Q where "Q = a div 2 ^ N"
      define R where "R = a mod 2 ^ N"
      have tr: "0 \<le> t" "t < 1073741824" using digits_in_range_nth [OF rx kl] by (simp_all add: t_def)
      have dk: "digitB (digits x) k = t" using kl by (simp add: digitB_def t_def)
      have lm: "js_and t (js_shl 1 s - 1) = t mod 2 ^ nat s"
      proof -
        have "js_shl 1 s = 2 ^ nat s" using sb by (intro js_shl_1) simp_all
        moreover have "js_and t (2 ^ nat s - 1) = t mod 2 ^ nat s"
          using sb by (intro js_and_low_mask) simp
        ultimately show ?thesis by simp
      qed
      have lex: "list_ex (\<lambda>d. d \<noteq> 0) (take k (digits x)) = (lo \<noteq> 0)"
        unfolding lo_def by (rule list_ex_nonzero_mag) (rule digits_in_range_take [OF rx])
      have lo0: "0 \<le> lo" unfolding lo_def by (rule mag_nonneg) (rule digits_in_range_take [OF rx])
      have Re: "R = lo + 1073741824 ^ k * (t mod 2 ^ nat s)"
        unfolding R_def pw a_def lo_def t_def using rx kl by (rule mag_mod_shift) (use sb in simp)
      have tm0: "0 \<le> 1073741824 ^ k * (t mod 2 ^ nat s)" by simp
      have Rz: "(t mod 2 ^ nat s \<noteq> 0 \<or> lo \<noteq> 0) \<longleftrightarrow> R \<noteq> 0"
      proof
        assume "t mod 2 ^ nat s \<noteq> 0 \<or> lo \<noteq> 0"
        then show "R \<noteq> 0"
        proof
          assume "t mod 2 ^ nat s \<noteq> 0"
          moreover have "0 \<le> t mod 2 ^ nat s" by simp
          ultimately have "0 < t mod 2 ^ nat s" by linarith
          then have "0 < 1073741824 ^ k * (t mod 2 ^ nat s)" by simp
          then show ?thesis unfolding Re using lo0 by linarith
        next
          assume "lo \<noteq> 0"
          then show ?thesis unfolding Re using lo0 tm0 by linarith
        qed
      next
        assume "R \<noteq> 0"
        then show "t mod 2 ^ nat s \<noteq> 0 \<or> lo \<noteq> 0" unfolding Re by auto
      qed
      have mrd: "(sign x \<and> (js_and (digitB (digits x) k) (js_shl 1 s - 1) \<noteq> 0 \<or>
                  list_ex (\<lambda>d. d \<noteq> 0) (take k (digits x)))) = (sign x \<and> R \<noteq> 0)"
        using Rz by (simp only: dk lm lex)
      have msd: "js_not (digitB (digits x) (length (digits x) - 1)) \<noteq> 0"
      proof -
        have "length (digits x) - 1 < length (digits x)" using nx by simp
        then have "0 \<le> digits x ! (length (digits x) - 1) \<and>
            digits x ! (length (digits x) - 1) < 1073741824"
          by (rule digits_in_range_nth [OF rx])
        then show ?thesis using nx by (intro js_not_digit) (simp_all add: digitB_def)
      qed
      have alr: "allocatable (length (digits x) - k)"
        using al by (rule allocatable_mono) simp
      define ds where "ds = (if s = 0 then drop k (digits x)
          else shr_loop (drop (k + 1) (digits x)) s (js_shr t s))"
      have dsr: "digits_in_range ds" and dsm: "mag ds = Q"
      proof -
        have q: "Q = mag (drop k (digits x)) div 2 ^ nat s"
          unfolding Q_def pw a_def using rx by (rule mag_div_shift)
        show "digits_in_range ds"
        proof (cases "s = 0")
          case True
          then show ?thesis unfolding ds_def using digits_in_range_drop [OF rx] by simp
        next
          case False
          then have s: "0 < s" "s < 30" using sb by simp_all
          show ?thesis using shr_digits_spec(1) [OF rx kl s] False by (simp add: ds_def t_def)
        qed
        show "mag ds = Q"
        proof (cases "s = 0")
          case True
          then show ?thesis unfolding ds_def q by simp
        next
          case False
          then have s: "0 < s" "s < 30" using sb by simp_all
          show ?thesis using shr_digits_spec(2) [OF rx kl s] False by (simp add: ds_def t_def q)
        qed
      qed
      have m32: "map toInt32 (drop k (digits x)) = drop k (digits x)"
        by (rule map_toInt32_digits) (rule digits_in_range_drop [OF rx])
      have e: "rightShiftByAbsolute x y =
          Inr (trim (if sign x \<and> R \<noteq> 0 then absoluteAddOne ds True
                     else \<lparr>sign = sign x, digits = ds\<rparr>))"
        unfolding rightShiftByAbsolute_def Let_def ts(1) jd jm k_def [symmetric] mrd
        using nneg long alr msd
        by (simp add: dk m32 ds_def del: One_nat_def)
      show ?thesis
      proof (cases "sign x \<and> R \<noteq> 0")
        case True
        note ao = absoluteAddOne_spec [OF dsr, of True]
        define r where "r = trim (absoluteAddOne ds True)"
        have er: "rightShiftByAbsolute x y = Inr r" using e True by (simp add: r_def)
        have ir: "invariant r" unfolding r_def using ao by (intro invariant_trim) blast
        have mr: "mag (digits r) = Q + 1" unfolding r_def using ao dsm by (simp add: mag_trim)
        have "val r = val (absoluteAddOne ds True)" unfolding r_def by (rule val_trim)
        also have "\<dots> = - (Q + 1)" using ao dsm by (simp add: val_def)
        also have "\<dots> = (- a) div 2 ^ N"
          using True by (simp add: zdiv_zminus1_eq_if Q_def R_def)
        finally have vr: "val r = val x div 2 ^ N" using True by (simp add: val_def a_def)
        have "mag (digits r) = a div 2 ^ N + (if sign x \<and> a mod 2 ^ N \<noteq> 0 then 1 else 0)"
          using mr True by (simp add: Q_def R_def)
        with er ir vr show ?thesis unfolding a_def N_def by blast
      next
        case False
        define r where "r = trim \<lparr>sign = sign x, digits = ds\<rparr>"
        have er: "rightShiftByAbsolute x y = Inr r" using e False by (simp add: r_def)
        have ir: "invariant r" unfolding r_def using dsr by (intro invariant_trim) simp
        have mr: "mag (digits r) = Q" unfolding r_def using dsm by (simp add: mag_trim)
        have "val r = val \<lparr>sign = sign x, digits = ds\<rparr>" unfolding r_def by (rule val_trim)
        also have "\<dots> = (if sign x then - Q else Q)" using dsm by (simp add: val_def)
        also have "\<dots> = val x div 2 ^ N"
        proof (cases "sign x")
          case True
          then have "R = 0" using False by simp
          then have "(- a) div 2 ^ N = - Q" by (simp add: zdiv_zminus1_eq_if Q_def R_def)
          then show ?thesis using True by (simp add: val_def a_def)
        next
          case False
          then show ?thesis by (simp add: val_def a_def Q_def)
        qed
        finally have vr: "val r = val x div 2 ^ N" .
        have "mag (digits r) = a div 2 ^ N + (if sign x \<and> a mod 2 ^ N \<noteq> 0 then 1 else 0)"
          using mr False by (simp add: Q_def R_def)
        with er ir vr show ?thesis unfolding a_def N_def by blast
      qed
    qed
  qed
qed

lemma leftShiftByAbsolute_closed:
  assumes wf: "wellformed x" and nx: "digits x \<noteq> []"
    and iy: "invariant y" and ly: "length (digits y) = 1"
  shows "\<exists>D. digits_in_range D \<and>
             length (digits x) + nat (mag (digits y) div 30) \<le> length D \<and>
             length D \<le> length (digits x) + nat (mag (digits y) div 30) + 1 \<and>
             mag D = mag (digits x) * 2 ^ nat (mag (digits y)) \<and>
             leftShiftByAbsolute x y =
               (if allocatable (length D) then Inr (trim \<lparr>sign = sign x, digits = D\<rparr>)
                else Inl (RangeError ''Maximum BigInt size exceeded''))"
proof -
  define N where "N = nat (mag (digits y))"
  define a where "a = mag (digits x)"
  define xs where "xs = digits x"
  have ix: "invariant x" using wf by (simp add: wellformed_def)
  have rx: "digits_in_range xs" using ix by (simp add: invariant_def xs_def)
  define sh where "sh = mag (digits y)"
  note ts = toShiftAmount_single [OF iy ly, folded sh_def]
  define k where "k = nat (sh div 30)"
  define s where "s = sh mod 30"
  have sh0: "0 \<le> sh" using ts(2) by simp
  have jd: "js_div sh 30 = sh div 30" using sh0 ts(3) by (intro js_div_nonneg) simp_all
  have jm: "js_mod sh 30 = s" unfolding s_def using sh0 ts(3) by (intro js_mod_nonneg) simp_all
  have sb: "0 \<le> s" "s < 30" by (simp_all add: s_def)
  have pw: "(2::int) ^ N = 1073741824 ^ k * 2 ^ nat s"
    unfolding N_def sh_def [symmetric] k_def s_def using sh0 by (rule shift_split)
  have nneg: "\<not> sh < 0" using sh0 by simp
  have m32: "map toInt32 xs = xs" using rx by (rule map_toInt32_digits)
  have ne: "xs \<noteq> []" using nx by (simp add: xs_def)
  have ld: "digitB xs (length xs - 1) = last xs" using ne by (rule last_digitB)
  show ?thesis
  proof (cases "s = 0")
    case True
    define D where "D = replicate k 0 @ xs"
    have e: "leftShiftByAbsolute x y =
               (if allocatable (length D) then Inr (trim \<lparr>sign = sign x, digits = D\<rparr>)
                else Inl (RangeError ''Maximum BigInt size exceeded''))"
      unfolding leftShiftByAbsolute_def Let_def ts(1) jd jm k_def [symmetric] xs_def [symmetric]
      using nneg True by (simp add: m32 D_def add.commute)
    have "mag D = 1073741824 ^ k * a" by (simp add: D_def mag_append a_def xs_def)
    then have m: "mag D = a * 2 ^ N" using True by (simp add: pw)
    have "digits_in_range D" using rx by (simp add: D_def)
    moreover have "length D = length xs + k" by (simp add: D_def)
    ultimately show ?thesis using e m
      unfolding a_def N_def xs_def sh_def [symmetric] k_def [symmetric] by (intro exI [of _ D]) simp
  next
    case False
    then have s: "0 < s" "s < 30" using sb by simp_all
    obtain rs c where sl: "shl_loop xs s 0 = (rs, c)" by (cases "shl_loop xs s 0")
    have c0: "(0::int) \<le> 0" "(0::int) < 2 ^ nat s" by simp_all
    note sp = shl_loop_spec [OF rx s c0 sl]
    have rr: "digits_in_range rs" and lr: "length rs = length xs"
      and cb: "0 \<le> c" "c < 2 ^ nat s"
      and mr: "mag rs + 1073741824 ^ length xs * c = 2 ^ nat s * mag xs"
      and ce: "c = js_shr (last xs) (30 - s)"
      using sp ne by auto
    have "(2::int) ^ nat s \<le> 2 ^ 30" using s by (intro power_increasing) simp_all
    then have c30: "c < 1073741824" using cb by simp
    then have tc: "toInt32 c = c" using cb by (simp add: toInt32_id)
    define D where "D = replicate k 0 @ rs @ (if c \<noteq> 0 then [c] else [])"
    have e: "leftShiftByAbsolute x y =
               (if allocatable (length D) then Inr (trim \<lparr>sign = sign x, digits = D\<rparr>)
                else Inl (RangeError ''Maximum BigInt size exceeded''))"
      unfolding leftShiftByAbsolute_def Let_def ts(1) jd jm k_def [symmetric] xs_def [symmetric]
        ld ce [symmetric] sl
      using nneg False by (simp add: tc D_def lr add.commute)
    have "mag D = 1073741824 ^ k * (mag rs + 1073741824 ^ length xs * c)"
      by (simp add: D_def mag_append lr)
    also have "\<dots> = 1073741824 ^ k * (2 ^ nat s * a)" unfolding mr by (simp only: a_def xs_def)
    finally have m: "mag D = a * 2 ^ N" by (simp add: pw)
    have "digits_in_range D" using rr cb c30 by (simp add: D_def)
    moreover have "length xs + k \<le> length D" "length D \<le> length xs + k + 1"
      by (simp_all add: D_def lr)
    ultimately show ?thesis using e m
      unfolding a_def N_def xs_def sh_def [symmetric] k_def [symmetric] by (intro exI [of _ D]) simp
  qed
qed

lemma val_sign_digits: "val \<lparr>sign = sg, digits = D\<rparr> = (if sg then - mag D else mag D)"
  by (simp add: val_def)

lemma leftShiftByAbsolute_spec:
  assumes wf: "wellformed x" and nx: "digits x \<noteq> []"
    and iy: "invariant y" and ny: "digits y \<noteq> []"
    and res: "leftShiftByAbsolute x y = Inr r"
  shows "wellformed r \<and> val r = val x * 2 ^ nat (mag (digits y))"
proof -
  have ly: "length (digits y) = 1"
  proof (rule ccontr)
    assume "length (digits y) \<noteq> 1"
    then have "1 < length (digits y)" using ny by (cases "digits y") auto
    then have "toShiftAmount y = - 1" by (rule toShiftAmount_multi)
    then show False using res by (simp add: leftShiftByAbsolute_def)
  qed
  from leftShiftByAbsolute_closed [OF wf nx iy ly] obtain D where
    D: "digits_in_range D" "mag D = mag (digits x) * 2 ^ nat (mag (digits y))"
      "leftShiftByAbsolute x y =
               (if allocatable (length D) then Inr (trim \<lparr>sign = sign x, digits = D\<rparr>)
                else Inl (RangeError ''Maximum BigInt size exceeded''))" by blast
  have al: "allocatable (length D)" using D(3) res by (auto split: if_splits)
  then have r: "r = trim \<lparr>sign = sign x, digits = D\<rparr>" using D(3) res by simp
  have "wellformed r" unfolding r using D(1) al by (intro wellformed_trim) simp_all
  moreover have "val r = val x * 2 ^ nat (mag (digits y))"
    unfolding r val_trim val_sign_digits D(2) by (simp add: val_def)
  ultimately show ?thesis by blast
qed

lemma leftShiftByAbsolute_returns:
  assumes wf: "wellformed x" and nx: "digits x \<noteq> []"
    and iy: "invariant y" and ly: "length (digits y) = 1"
    and al: "allocatable (length (digits x) + nat (mag (digits y) div 30) + 1)"
  shows "\<exists>r. leftShiftByAbsolute x y = Inr r"
proof -
  from leftShiftByAbsolute_closed [OF wf nx iy ly] obtain D where
    D: "length D \<le> length (digits x) + nat (mag (digits y) div 30) + 1"
      "leftShiftByAbsolute x y =
               (if allocatable (length D) then Inr (trim \<lparr>sign = sign x, digits = D\<rparr>)
                else Inl (RangeError ''Maximum BigInt size exceeded''))" by blast
  have "allocatable (length D)" using al D(1) by (rule allocatable_mono)
  then show ?thesis using D(2) by simp
qed

lemma invariant_empty_zero: "invariant x \<Longrightarrow> digits x = [] \<Longrightarrow> x = zero"
  by (simp add: invariant_def zero_def)

lemma signedRightShift_spec:
  assumes wf: "wellformed x" and iy: "invariant y" and ny: "\<not> sign y"
  shows "\<exists>r. signedRightShift x y = Inr r \<and> invariant r \<and>
             val r = val x div 2 ^ nat (val y) \<and>
             mag (digits r) = mag (digits x) div 2 ^ nat (val y)
               + (if sign x \<and> mag (digits x) mod 2 ^ nat (val y) \<noteq> 0 then 1 else 0)"
proof -
  have ix: "invariant x" using wf by (simp add: wellformed_def)
  have vy: "val y = mag (digits y)" using ny by (simp add: val_def)
  show ?thesis
  proof (cases "digits y = [] \<or> digits x = []")
    case True
    then have e: "signedRightShift x y = Inr x" by (simp add: signedRightShift_def)
    from True show ?thesis
    proof
      assume "digits y = []"
      then have "val y = 0" by (simp add: vy)
      then show ?thesis using e ix by simp
    next
      assume "digits x = []"
      then have "x = zero" using ix by (intro invariant_empty_zero)
      then show ?thesis using e by simp
    qed
  next
    case False
    then have nx: "digits x \<noteq> []" and nny: "digits y \<noteq> []" by simp_all
    have e: "signedRightShift x y = rightShiftByAbsolute x y"
      using False ny by (simp add: signedRightShift_def)
    show ?thesis unfolding e vy using wf nx iy nny by (rule rightShiftByAbsolute_spec)
  qed
qed

lemma leftShift_spec:
  assumes wf: "wellformed x" and iy: "invariant y" and ny: "\<not> sign y"
    and res: "leftShift x y = Inr r"
  shows "wellformed r \<and> val r = val x * 2 ^ nat (val y)"
proof -
  have ix: "invariant x" using wf by (simp add: wellformed_def)
  have vy: "val y = mag (digits y)" using ny by (simp add: val_def)
  show ?thesis
  proof (cases "digits y = [] \<or> digits x = []")
    case True
    then have e: "r = x" using res by (simp add: leftShift_def)
    from True show ?thesis
    proof
      assume "digits y = []"
      then have "val y = 0" by (simp add: vy)
      then show ?thesis using e wf by simp
    next
      assume "digits x = []"
      then have "x = zero" using ix by (intro invariant_empty_zero)
      then show ?thesis using e wf by simp
    qed
  next
    case False
    then have nx: "digits x \<noteq> []" and nny: "digits y \<noteq> []" by simp_all
    have e: "leftShiftByAbsolute x y = Inr r"
      using False ny res by (simp add: leftShift_def)
    show ?thesis unfolding vy using wf nx iy nny e by (rule leftShiftByAbsolute_spec)
  qed
qed

lemma digit_cons_bit:
  fixes d m :: int
  assumes "0 \<le> d" "d < 1073741824"
  shows "bit (d + 1073741824 * m) i \<longleftrightarrow> (if i < 30 then bit d i else bit m (i - 30))"
proof -
  have d: "take_bit 30 d = d" using assms by (simp add: take_bit_int_eq_self)
  have "take_bit 30 d + push_bit 30 m = take_bit 30 d OR push_bit 30 m"
    by (rule disjunctive_add) (auto simp: bit_push_bit_iff bit_take_bit_iff)
  then have e: "d + 1073741824 * m = take_bit 30 d OR push_bit 30 m"
    by (simp add: d push_bit_eq_mult)
  show ?thesis unfolding e
    by (auto simp: bit_or_iff bit_take_bit_iff bit_push_bit_iff)
qed

lemma digit_and_range:
  fixes d e :: int
  assumes "0 \<le> d" "d < 1073741824"
  shows "0 \<le> d AND e" "d AND e < 1073741824"
proof -
  show "0 \<le> d AND e" using assms by simp
  have "d AND e \<le> d" using assms by (intro AND_upper1) simp
  then show "d AND e < 1073741824" using assms by linarith
qed

lemma digit_or_range:
  fixes d e :: int
  assumes "0 \<le> d" "d < 1073741824" "0 \<le> e" "e < 1073741824"
  shows "0 \<le> d OR e" "d OR e < 1073741824"
proof -
  show "0 \<le> d OR e" using assms by simp
  have "d OR e < 2 ^ 30" using assms by (intro OR_upper) simp_all
  then show "d OR e < 1073741824" by simp
qed

lemma digit_xor_range:
  fixes d e :: int
  assumes "0 \<le> d" "d < 1073741824" "0 \<le> e" "e < 1073741824"
  shows "0 \<le> d XOR e" "d XOR e < 1073741824"
proof -
  show "0 \<le> d XOR e" using assms by simp
  have "d XOR e < 2 ^ 30" using assms by (intro XOR_upper) simp_all
  then show "d XOR e < 1073741824" by simp
qed

lemma cons_and:
  fixes d e m n :: int
  assumes "0 \<le> d" "d < 1073741824" "0 \<le> e" "e < 1073741824"
  shows "(d + 1073741824 * m) AND (e + 1073741824 * n) = (d AND e) + 1073741824 * (m AND n)"
  by (rule bit_eqI)
    (simp add: bit_and_iff digit_cons_bit assms digit_and_range)

lemma cons_or:
  fixes d e m n :: int
  assumes "0 \<le> d" "d < 1073741824" "0 \<le> e" "e < 1073741824"
  shows "(d + 1073741824 * m) OR (e + 1073741824 * n) = (d OR e) + 1073741824 * (m OR n)"
  by (rule bit_eqI)
    (simp add: bit_or_iff digit_cons_bit assms digit_or_range)

lemma cons_xor:
  fixes d e m n :: int
  assumes "0 \<le> d" "d < 1073741824" "0 \<le> e" "e < 1073741824"
  shows "(d + 1073741824 * m) XOR (e + 1073741824 * n) = (d XOR e) + 1073741824 * (m XOR n)"
  by (rule bit_eqI)
    (simp add: bit_xor_iff digit_cons_bit assms digit_xor_range)

lemma cons_andnot:
  fixes d e m n :: int
  assumes "0 \<le> d" "d < 1073741824" "0 \<le> e" "e < 1073741824"
  shows "(d + 1073741824 * m) AND NOT (e + 1073741824 * n)
         = (d AND NOT e) + 1073741824 * (m AND NOT n)"
  by (rule bit_eqI)
    (simp add: bit_and_iff bit_not_iff digit_cons_bit assms digit_and_range)

lemma js_and_digits:
  fixes d e :: int
  assumes "0 \<le> d" "d < 1073741824" "0 \<le> e" "e < 1073741824"
  shows "toInt32 (js_and d e) = d AND e"
proof -
  note r = digit_and_range [OF assms(1,2), of e]
  have "toInt32 (d AND e) = d AND e" using r by (intro toInt32_id) linarith+
  then show ?thesis using assms by (simp add: js_and_def toInt32_id)
qed

lemma js_or_digits:
  fixes d e :: int
  assumes "0 \<le> d" "d < 1073741824" "0 \<le> e" "e < 1073741824"
  shows "toInt32 (js_or d e) = d OR e"
proof -
  note r = digit_or_range [OF assms]
  have "toInt32 (d OR e) = d OR e" using r by (intro toInt32_id) linarith+
  then show ?thesis using assms by (simp add: js_or_def toInt32_id)
qed

lemma js_xor_digits:
  fixes d e :: int
  assumes "0 \<le> d" "d < 1073741824" "0 \<le> e" "e < 1073741824"
  shows "toInt32 (js_xor d e) = d XOR e"
proof -
  note r = digit_xor_range [OF assms]
  have "toInt32 (d XOR e) = d XOR e" using r by (intro toInt32_id) linarith+
  then show ?thesis using assms by (simp add: js_xor_def toInt32_id)
qed

lemma js_andnot_digits:
  fixes d e :: int
  assumes "0 \<le> d" "d < 1073741824" "0 \<le> e" "e < 1073741824"
  shows "toInt32 (js_and d (js_not e)) = d AND NOT e"
proof -
  have n: "toInt32 (NOT e) = NOT e" using assms by (intro toInt32_id) (simp_all add: not_int_def)
  note r = digit_and_range [OF assms(1,2), of "NOT e"]
  have "toInt32 (d AND NOT e) = d AND NOT e" using r by (intro toInt32_id) linarith+
  then show ?thesis using assms n by (simp add: js_and_def js_not_def toInt32_id)
qed

lemma map_index_zip:
  "map (\<lambda>i. f (digitB xs i) (digitB ys i)) [0..<min (length xs) (length ys)]
     = map (\<lambda>(a, b). f a b) (zip xs ys)"
  by (rule nth_equalityI) (simp_all add: digitB_def)

lemma map_index_drop:
  "map (\<lambda>i. g (digitB xs i)) [k..<length xs] = map g (drop k xs)"
  by (rule nth_equalityI) (auto simp: digitB_def)

lemma zip_and_spec:
  assumes "digits_in_range xs" "digits_in_range ys"
  shows "digits_in_range (map (\<lambda>(a, b). toInt32 (js_and a b)) (zip xs ys)) \<and>
         mag (map (\<lambda>(a, b). toInt32 (js_and a b)) (zip xs ys)) = mag xs AND mag ys"
  using assms
proof (induction xs arbitrary: ys)
  case Nil
  then show ?case by simp
next
  case (Cons d ds)
  show ?case
  proof (cases ys)
    case Nil
    then show ?thesis by simp
  next
    case (Cons e es)
    have d: "0 \<le> d" "d < 1073741824" and rd: "digits_in_range ds"
      using Cons.prems(1) by simp_all
    have e: "0 \<le> e" "e < 1073741824" and re: "digits_in_range es"
      using Cons.prems(2) Cons by simp_all
    note ih = Cons.IH [OF rd re]
    note r = digit_and_range [OF d, of e]
    show ?thesis unfolding Cons
      using ih r by (simp add: js_and_digits [OF d e] cons_and [OF d e])
  qed
qed

lemma zip_or_spec:
  assumes "digits_in_range xs" "digits_in_range ys" "length ys \<le> length xs"
  shows "digits_in_range (map (\<lambda>(a, b). toInt32 (js_or a b)) (zip xs ys) @ drop (length ys) xs) \<and>
         mag (map (\<lambda>(a, b). toInt32 (js_or a b)) (zip xs ys) @ drop (length ys) xs)
           = mag xs OR mag ys"
  using assms
proof (induction xs arbitrary: ys)
  case Nil
  then show ?case by simp
next
  case (Cons d ds)
  show ?case
  proof (cases ys)
    case Nil
    then show ?thesis using Cons.prems(1) by simp
  next
    case (Cons e es)
    have d: "0 \<le> d" "d < 1073741824" and rd: "digits_in_range ds"
      using Cons.prems(1) by simp_all
    have e: "0 \<le> e" "e < 1073741824" and re: "digits_in_range es"
      using Cons.prems(2) Cons by simp_all
    have l: "length es \<le> length ds" using Cons.prems(3) Cons by simp
    note ih = Cons.IH [OF rd re l]
    note r = digit_or_range [OF d e]
    show ?thesis unfolding Cons
      using ih r by (simp add: js_or_digits [OF d e] cons_or [OF d e])
  qed
qed

lemma zip_xor_spec:
  assumes "digits_in_range xs" "digits_in_range ys" "length ys \<le> length xs"
  shows "digits_in_range (map (\<lambda>(a, b). toInt32 (js_xor a b)) (zip xs ys) @ drop (length ys) xs) \<and>
         mag (map (\<lambda>(a, b). toInt32 (js_xor a b)) (zip xs ys) @ drop (length ys) xs)
           = mag xs XOR mag ys"
  using assms
proof (induction xs arbitrary: ys)
  case Nil
  then show ?case by simp
next
  case (Cons d ds)
  show ?case
  proof (cases ys)
    case Nil
    then show ?thesis using Cons.prems(1) by simp
  next
    case (Cons e es)
    have d: "0 \<le> d" "d < 1073741824" and rd: "digits_in_range ds"
      using Cons.prems(1) by simp_all
    have e: "0 \<le> e" "e < 1073741824" and re: "digits_in_range es"
      using Cons.prems(2) Cons by simp_all
    have l: "length es \<le> length ds" using Cons.prems(3) Cons by simp
    note ih = Cons.IH [OF rd re l]
    note r = digit_xor_range [OF d e]
    show ?thesis unfolding Cons
      using ih r by (simp add: js_xor_digits [OF d e] cons_xor [OF d e])
  qed
qed

lemma zip_andnot_spec:
  assumes "digits_in_range xs" "digits_in_range ys"
  shows "digits_in_range (map (\<lambda>(a, b). toInt32 (js_and a (js_not b))) (zip xs ys)
                           @ drop (length ys) xs) \<and>
         mag (map (\<lambda>(a, b). toInt32 (js_and a (js_not b))) (zip xs ys) @ drop (length ys) xs)
           = mag xs AND NOT (mag ys)"
  using assms
proof (induction xs arbitrary: ys)
  case Nil
  then show ?case by simp
next
  case (Cons d ds)
  show ?case
  proof (cases ys)
    case Nil
    then show ?thesis using Cons.prems(1) by simp
  next
    case (Cons e es)
    have d: "0 \<le> d" "d < 1073741824" and rd: "digits_in_range ds"
      using Cons.prems(1) by simp_all
    have e: "0 \<le> e" "e < 1073741824" and re: "digits_in_range es"
      using Cons.prems(2) Cons by simp_all
    note ih = Cons.IH [OF rd re]
    note r = digit_and_range [OF d, of "NOT e"]
    show ?thesis unfolding Cons
      using ih r by (simp add: js_andnot_digits [OF d e] cons_andnot [OF d e])
  qed
qed

lemma neg_as_not: "- (a::int) = NOT (a - 1)"
  by (simp add: not_int_def)

lemma succ_neg_as_not: "- ((c::int) + 1) = NOT c"
  by (simp add: not_int_def)

lemma twos_and_neg_neg: "(- x) AND (- y) = - ((((x::int) - 1) OR (y - 1)) + 1)"
  unfolding succ_neg_as_not neg_as_not [of x] neg_as_not [of y]
  by (rule bit_eqI) (simp add: bit_simps)

lemma twos_and_pos_neg: "(x::int) AND (- y) = x AND NOT (y - 1)"
  unfolding neg_as_not [of y] ..

lemma twos_xor_neg_neg: "(- x) XOR (- y) = ((x::int) - 1) XOR (y - 1)"
  unfolding neg_as_not [of x] neg_as_not [of y]
  by (rule bit_eqI) (auto simp: bit_simps)

lemma twos_xor_pos_neg: "(x::int) XOR (- y) = - (((y - 1) XOR x) + 1)"
  unfolding succ_neg_as_not neg_as_not [of y]
  by (rule bit_eqI) (auto simp: bit_simps)

lemma twos_or_neg_neg: "(- x) OR (- y) = - ((((x::int) - 1) AND (y - 1)) + 1)"
  unfolding succ_neg_as_not neg_as_not [of x] neg_as_not [of y]
  by (rule bit_eqI) (simp add: bit_simps)

lemma twos_or_pos_neg: "(x::int) OR (- y) = - (((y - 1) AND NOT x) + 1)"
  unfolding succ_neg_as_not neg_as_not [of y]
  by (rule bit_eqI) (auto simp: bit_simps)

lemma sub_step:
  fixes r :: int
  assumes "- 1073741824 \<le> r" "r < 1073741824"
  shows "toInt32 (js_and r 0x3FFFFFFF) = r mod 1073741824"
    and "js_and (js_shr r 30) 1 = (if r < 0 then 1 else 0)"
    and "r mod 1073741824 - 1073741824 * (if r < 0 then 1 else 0) = r"
proof -
  have m: "0 \<le> r mod 1073741824" "r mod 1073741824 < 1073741824" by simp_all
  show "toInt32 (js_and r 0x3FFFFFFF) = r mod 1073741824"
    unfolding js_and_mask30 using m by (intro toInt32_id) linarith+
  show "js_and (js_shr r 30) 1 = (if r < 0 then 1 else 0)" using assms by (rule borrow_bit)
  show "r mod 1073741824 - 1073741824 * (if r < 0 then 1 else 0) = r"
  proof (cases "r < 0")
    case True
    have "r mod 1073741824 = r + 1073741824"
      by (rule mod_eqI [where c = "- 1"]) (use assms True in simp_all)
    then show ?thesis using True by simp
  next
    case False
    then have "r mod 1073741824 = r" using assms by (simp add: mod_pos_pos_trivial)
    then show ?thesis using False by simp
  qed
qed

lemma subOne_loop_spec:
  assumes "digits_in_range xs" "b = 0 \<or> b = 1" "subOne_loop xs b = (rs, b')"
  shows "digits_in_range rs \<and> length rs = length xs \<and> (b' = 0 \<or> b' = 1) \<and>
         mag rs - 1073741824 ^ length xs * b' = mag xs - b"
  using assms
proof (induction xs arbitrary: b rs b')
  case Nil
  then show ?case by simp
next
  case (Cons d ds)
  have d: "0 \<le> d" "d < 1073741824" and r: "digits_in_range ds"
    using Cons.prems(1) by simp_all
  define t where "t = d - b"
  have t: "- 1073741824 \<le> t" "t < 1073741824" using d Cons.prems(2) by (auto simp: t_def)
  note st = sub_step [OF t]
  have m: "0 \<le> t mod 1073741824" "t mod 1073741824 < 1073741824" by simp_all
  have cb: "(if t < 0 then 1 else 0) = (0::int) \<or> (if t < 0 then 1 else 0) = (1::int)" by simp
  obtain rs' where sl: "subOne_loop ds (js_and (js_shr t 30) 1) = (rs', b')"
    and rs: "rs = toInt32 (js_and t 0x3FFFFFFF) # rs'"
    using Cons.prems(3) by (auto simp: Let_def t_def split: prod.splits)
  note ih = Cons.IH [OF r cb sl [unfolded st(2)]]
  have ihm: "mag rs' - 1073741824 ^ length ds * b' = mag ds - (if t < 0 then 1 else 0)"
    using ih by blast
  have "mag rs - 1073741824 ^ length (d # ds) * b'
        = t mod 1073741824 + 1073741824 * (mag rs' - 1073741824 ^ length ds * b')"
    unfolding rs st(1) by (simp add: algebra_simps)
  also have "\<dots> = (t mod 1073741824 - 1073741824 * (if t < 0 then 1 else 0))
                     + 1073741824 * mag ds"
    unfolding ihm by (simp add: algebra_simps)
  also have "\<dots> = t + 1073741824 * mag ds" by (simp only: st(3))
  finally have mm: "mag rs - 1073741824 ^ length (d # ds) * b' = mag (d # ds) - b"
    by (simp add: t_def)
  have "digits_in_range rs" using ih m unfolding rs st(1) by simp
  moreover have "length rs = length (d # ds)" using ih unfolding rs by simp
  ultimately show ?case using mm ih by blast
qed

lemma absoluteSubOne_spec:
  assumes r: "digits_in_range xs" and p: "0 < mag xs"
    and al: "allocatable (if n = 0 then length xs else n)"
  shows "\<exists>ds. absoluteSubOne xs n = Inr ds \<and> digits_in_range ds \<and>
              mag ds = mag xs - 1 \<and> length ds = max (length xs) n"
proof -
  obtain rs b where l: "subOne_loop xs 1 = (rs, b)" by (cases "subOne_loop xs 1")
  have one: "(1::int) = 0 \<or> (1::int) = 1" by simp
  note sp = subOne_loop_spec [OF r one l]
  have rr: "digits_in_range rs" and len: "length rs = length xs" and cb: "b = 0 \<or> b = 1"
    and m: "mag rs - 1073741824 ^ length xs * b = mag xs - 1" using sp by blast+
  have b0: "b = 0"
  proof (rule ccontr)
    assume "b \<noteq> 0"
    then have "b = 1" using cb by simp
    then have "mag rs = mag xs - 1 + 1073741824 ^ length xs" using m by simp
    moreover have "mag rs < 1073741824 ^ length xs" using mag_less [OF rr] len by simp
    ultimately show False using p by linarith
  qed
  define ds where "ds = rs @ replicate ((if n = 0 then length xs else n) - length xs) 0"
  have e: "absoluteSubOne xs n = Inr ds"
    using al b0 by (simp add: absoluteSubOne_def Let_def l ds_def)
  have "digits_in_range ds" using rr by (simp add: ds_def)
  moreover have "mag ds = mag xs - 1" using m b0 by (simp add: ds_def mag_append)
  moreover have "length ds = max (length xs) n" by (auto simp: ds_def len)
  ultimately show ?thesis using e by blast
qed

lemma tail_digits:
  assumes "digits_in_range xs"
  shows "map (\<lambda>i. toInt32 (digitB xs i)) [k..<length xs] = drop k xs"
proof -
  have "map (\<lambda>i. toInt32 (digitB xs i)) [k..<length xs] = map toInt32 (drop k xs)"
    by (rule map_index_drop)
  also have "\<dots> = drop k xs"
    by (rule map_toInt32_digits) (rule digits_in_range_drop [OF assms])
  finally show ?thesis .
qed

lemma absoluteOr_ordered:
  assumes rx: "digits_in_range xs" and ry: "digits_in_range ys" and l: "length ys \<le> length xs"
  defines "ds \<equiv> map (\<lambda>i. toInt32 (js_or (digitB xs i) (digitB ys i)))
                    [0..<min (length xs) (length ys)]
                 @ map (\<lambda>i. toInt32 (digitB xs i)) [min (length xs) (length ys)..<length xs]"
  shows "digits_in_range ds \<and> mag ds = mag xs OR mag ys \<and> length ds = length xs"
proof -
  have mn: "min (length xs) (length ys) = length ys" using l by simp
  have e: "ds = map (\<lambda>(a, b). toInt32 (js_or a b)) (zip xs ys) @ drop (length ys) xs"
    unfolding ds_def map_index_zip [where f = "\<lambda>a b. toInt32 (js_or a b)"] tail_digits [OF rx]
    by (simp only: mn)
  have "length ds = length xs" unfolding e using l by simp
  then show ?thesis using zip_or_spec [OF rx ry l] by (simp only: e)
qed

lemma absoluteXor_ordered:
  assumes rx: "digits_in_range xs" and ry: "digits_in_range ys" and l: "length ys \<le> length xs"
  defines "ds \<equiv> map (\<lambda>i. toInt32 (js_xor (digitB xs i) (digitB ys i)))
                    [0..<min (length xs) (length ys)]
                 @ map (\<lambda>i. toInt32 (digitB xs i)) [min (length xs) (length ys)..<length xs]"
  shows "digits_in_range ds \<and> mag ds = mag xs XOR mag ys \<and> length ds = length xs"
proof -
  have mn: "min (length xs) (length ys) = length ys" using l by simp
  have e: "ds = map (\<lambda>(a, b). toInt32 (js_xor a b)) (zip xs ys) @ drop (length ys) xs"
    unfolding ds_def map_index_zip [where f = "\<lambda>a b. toInt32 (js_xor a b)"] tail_digits [OF rx]
    by (simp only: mn)
  have "length ds = length xs" unfolding e using l by simp
  then show ?thesis using zip_xor_spec [OF rx ry l] by (simp only: e)
qed

lemma absoluteOr_spec:
  assumes rx: "digits_in_range x" and ry: "digits_in_range y"
    and al: "inplace \<or> allocatable (max (length x) (length y))"
  shows "\<exists>ds. absoluteOr x y inplace = Inr ds \<and> digits_in_range ds \<and>
              mag ds = mag x OR mag y \<and> length ds = max (length x) (length y)"
proof (cases "length x < length y")
  case True
  then have l: "length x \<le> length y" by simp
  note o = absoluteOr_ordered [OF ry rx l]
  have mx: "max (length x) (length y) = length y" using True by simp
  have mn: "min (length x) (length y) = min (length y) (length x)" by simp
  show ?thesis using True al o unfolding mx
    by (auto simp: absoluteOr_def Let_def mn or.commute simp del: min.absorb1 min.absorb2
        min.absorb3 min.absorb4)
next
  case False
  then have l: "length y \<le> length x" by simp
  note o = absoluteOr_ordered [OF rx ry l]
  have mx: "max (length x) (length y) = length x" using False by simp
  show ?thesis using False al o unfolding mx
    by (auto simp: absoluteOr_def Let_def simp del: min.absorb1 min.absorb2
        min.absorb3 min.absorb4)
qed

lemma absoluteXor_spec:
  assumes rx: "digits_in_range x" and ry: "digits_in_range y"
    and al: "inplace \<or> allocatable (max (length x) (length y))"
  shows "\<exists>ds. absoluteXor x y inplace = Inr ds \<and> digits_in_range ds \<and>
              mag ds = mag x XOR mag y \<and> length ds = max (length x) (length y)"
proof (cases "length x < length y")
  case True
  then have l: "length x \<le> length y" by simp
  note o = absoluteXor_ordered [OF ry rx l]
  have mx: "max (length x) (length y) = length y" using True by simp
  have mn: "min (length x) (length y) = min (length y) (length x)" by simp
  show ?thesis using True al o unfolding mx
    by (auto simp: absoluteXor_def Let_def mn xor.commute simp del: min.absorb1 min.absorb2
        min.absorb3 min.absorb4)
next
  case False
  then have l: "length y \<le> length x" by simp
  note o = absoluteXor_ordered [OF rx ry l]
  have mx: "max (length x) (length y) = length x" using False by simp
  show ?thesis using False al o unfolding mx
    by (auto simp: absoluteXor_def Let_def simp del: min.absorb1 min.absorb2
        min.absorb3 min.absorb4)
qed

lemma absoluteAnd_pairs:
  assumes rx: "digits_in_range xs" and ry: "digits_in_range ys"
  defines "ps \<equiv> map (\<lambda>i. toInt32 (js_and (digitB xs i) (digitB ys i)))
                    [0..<min (length xs) (length ys)]"
  shows "digits_in_range ps \<and> mag ps = mag xs AND mag ys \<and>
         length ps = min (length xs) (length ys)"
proof -
  have e: "ps = map (\<lambda>(a, b). toInt32 (js_and a b)) (zip xs ys)"
    unfolding ps_def by (rule map_index_zip [where f = "\<lambda>a b. toInt32 (js_and a b)"])
  have "length ps = min (length xs) (length ys)" unfolding e by simp
  then show ?thesis using zip_and_spec [OF rx ry] by (simp only: e)
qed

lemma absoluteAnd_spec:
  assumes rx: "digits_in_range x" and ry: "digits_in_range y"
    and al: "inplace \<or> allocatable (min (length x) (length y))"
  shows "\<exists>ds. absoluteAnd x y inplace = Inr ds \<and> digits_in_range ds \<and>
              mag ds = mag x AND mag y \<and>
              length ds = (if inplace then length x else min (length x) (length y))"
proof (cases "length x < length y")
  case True
  note o = absoluteAnd_pairs [OF ry rx]
  have mn: "min (length x) (length y) = min (length y) (length x)" by simp
  show ?thesis using True al o
    by (auto simp: absoluteAnd_def Let_def mn and.commute mag_append
        simp del: min.absorb1 min.absorb2 min.absorb3 min.absorb4)
next
  case False
  note o = absoluteAnd_pairs [OF rx ry]
  show ?thesis using False al o
    by (auto simp: absoluteAnd_def Let_def mag_append
        simp del: min.absorb1 min.absorb2 min.absorb3 min.absorb4)
qed

lemma absoluteAndNot_spec:
  assumes rx: "digits_in_range x" and ry: "digits_in_range y"
    and al: "inplace \<or> allocatable (length x)"
  shows "\<exists>ds. absoluteAndNot x y inplace = Inr ds \<and> digits_in_range ds \<and>
              mag ds = mag x AND NOT (mag y) \<and> length ds = length x"
proof -
  define ds where "ds = map (\<lambda>i. toInt32 (js_and (digitB x i) (js_not (digitB y i))))
                    [0..<min (length x) (length y)]
                 @ map (\<lambda>i. toInt32 (digitB x i)) [min (length x) (length y)..<length x]"
  have dr: "drop (min (length x) (length y)) x = drop (length y) x"
    by (cases "length x \<le> length y") simp_all
  have e: "ds = map (\<lambda>(a, b). toInt32 (js_and a (js_not b))) (zip x y) @ drop (length y) x"
    unfolding ds_def map_index_zip [where f = "\<lambda>a b. toInt32 (js_and a (js_not b))"]
      tail_digits [OF rx] by (simp only: dr)
  have "length ds = length x" unfolding e by simp
  then have sp: "digits_in_range ds \<and> mag ds = mag x AND NOT (mag y) \<and> length ds = length x"
    using zip_andnot_spec [OF rx ry] by (simp only: e)
  have "absoluteAndNot x y inplace = Inr ds"
    using al unfolding absoluteAndNot_def Let_def ds_def [symmetric] by auto
  then show ?thesis using sp by blast
qed

lemma wellformed_parts:
  assumes "wellformed x"
  shows "digits_in_range (digits x)" "allocatable (length (digits x))" "invariant x"
    "0 \<le> mag (digits x)" "sign x \<Longrightarrow> 0 < mag (digits x)"
    "val x = (if sign x then - mag (digits x) else mag (digits x))"
proof -
  show i: "invariant x" and "allocatable (length (digits x))"
    using assms by (simp_all add: wellformed_def)
  show r: "digits_in_range (digits x)" using i by (simp add: invariant_def)
  show "0 \<le> mag (digits x)" using r by (rule mag_nonneg)
  show "sign x \<Longrightarrow> 0 < mag (digits x)"
  proof -
    assume "sign x"
    then have "digits x \<noteq> []" using i by (auto simp: invariant_def)
    with i show ?thesis by (rule invariant_nonempty_pos)
  qed
  show "val x = (if sign x then - mag (digits x) else mag (digits x))" by (simp add: val_def)
qed

lemma trim_result:
  assumes "digits_in_range ds"
  shows "invariant (trim \<lparr>sign = sg, digits = ds\<rparr>)"
    "val (trim \<lparr>sign = sg, digits = ds\<rparr>) = (if sg then - mag ds else mag ds)"
  using assms by (simp_all add: invariant_trim val_trim val_sign_digits)

lemma addOne_result:
  assumes "digits_in_range ds"
  shows "invariant (trim (absoluteAddOne ds True))"
    "val (trim (absoluteAddOne ds True)) = - (mag ds + 1)"
proof -
  note ao = absoluteAddOne_spec [OF assms, of True]
  show "invariant (trim (absoluteAddOne ds True))" using ao by (intro invariant_trim) blast
  have "val (trim (absoluteAddOne ds True)) = val (absoluteAddOne ds True)" by (rule val_trim)
  also have "\<dots> = - (mag ds + 1)" using ao by (simp add: val_def)
  finally show "val (trim (absoluteAddOne ds True)) = - (mag ds + 1)" .
qed

lemma subOne_own:
  assumes wf: "wellformed y" and s: "sign y"
  shows "\<exists>y1. absoluteSubOne (digits y) 0 = Inr y1 \<and> digits_in_range y1 \<and>
              mag y1 = mag (digits y) - 1 \<and> length y1 = length (digits y)"
proof -
  note p = wellformed_parts [OF wf]
  have "allocatable (if (0::nat) = 0 then length (digits y) else 0)" using p(2) by simp
  from absoluteSubOne_spec [OF p(1) p(5) [OF s] this] show ?thesis by simp
qed

lemma subOne_sized:
  assumes wf: "wellformed y" and s: "sign y" and al: "allocatable n"
    and n: "length (digits y) \<le> n"
  shows "\<exists>res. absoluteSubOne (digits y) n = Inr res \<and> digits_in_range res \<and>
              mag res = mag (digits y) - 1 \<and> length res = n"
proof -
  note p = wellformed_parts [OF wf]
  have "digits y \<noteq> []" using p(3) s by (auto simp: invariant_def)
  then have n0: "n \<noteq> 0" using n by (cases "digits y") auto
  then have "allocatable (if n = 0 then length (digits y) else n)" using al by simp
  from absoluteSubOne_spec [OF p(1) p(5) [OF s] this] show ?thesis using n by (simp add: max_def)
qed

lemma bitwiseAnd_spec:
  assumes wx: "wellformed x" and wy: "wellformed y"
    and al: "sign x \<and> sign y \<longrightarrow>
             allocatable (max (length (digits x)) (length (digits y)) + 1)"
  shows "\<exists>r. bitwiseAnd x y = Inr r \<and> invariant r \<and> val r = val x AND val y"
proof -
  note px = wellformed_parts [OF wx] and py = wellformed_parts [OF wy]
  consider (pp) "\<not> sign x" "\<not> sign y" | (nn) "sign x" "sign y"
    | (pn) "\<not> sign x" "sign y" | (np) "sign x" "\<not> sign y" by blast
  then show ?thesis
  proof cases
    case pp
    have "allocatable (min (length (digits x)) (length (digits y)))"
      using px(2) by (rule allocatable_mono) simp
    then have "False \<or> allocatable (min (length (digits x)) (length (digits y)))" by simp
    from absoluteAnd_spec [OF px(1) py(1) this] obtain ds where
      ds: "absoluteAnd (digits x) (digits y) False = Inr ds" "digits_in_range ds"
        "mag ds = mag (digits x) AND mag (digits y)" by blast
    have "bitwiseAnd x y = Inr (trim \<lparr>sign = False, digits = ds\<rparr>)"
      using pp ds(1) by (simp add: bitwiseAnd_def)
    then show ?thesis using trim_result [OF ds(2), of False] ds(3) pp
      by (simp add: px(6) py(6))
  next
    case nn
    define n where "n = max (length (digits x)) (length (digits y)) + 1"
    have an: "allocatable n" using al nn by (simp add: n_def)
    have ln: "length (digits x) \<le> n" by (simp add: n_def)
    from subOne_sized [OF wx nn(1) an ln] obtain res where
      res: "absoluteSubOne (digits x) n = Inr res" "digits_in_range res"
        "mag res = mag (digits x) - 1" by blast
    from subOne_own [OF wy nn(2)] obtain y1 where
      y1: "absoluteSubOne (digits y) 0 = Inr y1" "digits_in_range y1"
        "mag y1 = mag (digits y) - 1" by blast
    have "True \<or> allocatable (max (length res) (length y1))" by simp
    from absoluteOr_spec [OF res(2) y1(2) this] obtain ds where
      ds: "absoluteOr res y1 True = Inr ds" "digits_in_range ds"
        "mag ds = mag res OR mag y1" by blast
    have n': "Suc (max (length (digits x)) (length (digits y))) = n" by (simp add: n_def)
    have "bitwiseAnd x y = Inr (trim (absoluteAddOne ds True))"
      using nn res(1) y1(1) ds(1) by (simp add: bitwiseAnd_def n')
    moreover have "- (mag ds + 1) = val x AND val y"
      unfolding ds(3) res(3) y1(3) using nn by (simp only: px(6) py(6) twos_and_neg_neg if_True)
    ultimately show ?thesis using addOne_result [OF ds(2)] by simp
  next
    case pn
    from subOne_own [OF wy pn(2)] obtain y1 where
      y1: "absoluteSubOne (digits y) 0 = Inr y1" "digits_in_range y1"
        "mag y1 = mag (digits y) - 1" by blast
    have "False \<or> allocatable (length (digits x))" using px(2) by simp
    from absoluteAndNot_spec [OF px(1) y1(2) this] obtain ds where
      ds: "absoluteAndNot (digits x) y1 False = Inr ds" "digits_in_range ds"
        "mag ds = mag (digits x) AND NOT (mag y1)" by blast
    have "bitwiseAnd x y = Inr (trim \<lparr>sign = False, digits = ds\<rparr>)"
      using pn y1(1) ds(1) by (simp add: bitwiseAnd_def)
    moreover have "mag ds = val x AND val y"
      unfolding ds(3) y1(3) using pn by (simp only: px(6) py(6) twos_and_pos_neg if_True if_False)
    ultimately show ?thesis using trim_result [OF ds(2), of False] by simp
  next
    case np
    from subOne_own [OF wx np(1)] obtain y1 where
      y1: "absoluteSubOne (digits x) 0 = Inr y1" "digits_in_range y1"
        "mag y1 = mag (digits x) - 1" by blast
    have "False \<or> allocatable (length (digits y))" using py(2) by simp
    from absoluteAndNot_spec [OF py(1) y1(2) this] obtain ds where
      ds: "absoluteAndNot (digits y) y1 False = Inr ds" "digits_in_range ds"
        "mag ds = mag (digits y) AND NOT (mag y1)" by blast
    have "bitwiseAnd x y = Inr (trim \<lparr>sign = False, digits = ds\<rparr>)"
      using np y1(1) ds(1) by (simp add: bitwiseAnd_def)
    moreover have "mag ds = val y AND val x"
      unfolding ds(3) y1(3) using np by (simp only: px(6) py(6) twos_and_pos_neg if_True if_False)
    ultimately show ?thesis using trim_result [OF ds(2), of False] by (simp add: and.commute)
  qed
qed

lemma bitwiseOr_spec:
  assumes wx: "wellformed x" and wy: "wellformed y"
  shows "\<exists>r. bitwiseOr x y = Inr r \<and> invariant r \<and> val r = val x OR val y"
proof -
  note px = wellformed_parts [OF wx] and py = wellformed_parts [OF wy]
  define n where "n = max (length (digits x)) (length (digits y))"
  have an: "allocatable n" using px(2) py(2) by (simp add: n_def max_def)
  have lx: "length (digits x) \<le> n" and ly: "length (digits y) \<le> n" by (simp_all add: n_def)
  consider (pp) "\<not> sign x" "\<not> sign y" | (nn) "sign x" "sign y"
    | (pn) "\<not> sign x" "sign y" | (np) "sign x" "\<not> sign y" by blast
  then show ?thesis
  proof cases
    case pp
    have "False \<or> allocatable (max (length (digits x)) (length (digits y)))"
      using an by (simp add: n_def)
    from absoluteOr_spec [OF px(1) py(1) this] obtain ds where
      ds: "absoluteOr (digits x) (digits y) False = Inr ds" "digits_in_range ds"
        "mag ds = mag (digits x) OR mag (digits y)" by blast
    have "bitwiseOr x y = Inr (trim \<lparr>sign = False, digits = ds\<rparr>)"
      using pp ds(1) by (simp add: bitwiseOr_def)
    then show ?thesis using trim_result [OF ds(2), of False] ds(3) pp
      by (simp add: px(6) py(6))
  next
    case nn
    from subOne_sized [OF wx nn(1) an lx] obtain res where
      res: "absoluteSubOne (digits x) n = Inr res" "digits_in_range res"
        "mag res = mag (digits x) - 1" by blast
    from subOne_own [OF wy nn(2)] obtain y1 where
      y1: "absoluteSubOne (digits y) 0 = Inr y1" "digits_in_range y1"
        "mag y1 = mag (digits y) - 1" by blast
    have "True \<or> allocatable (min (length res) (length y1))" by simp
    from absoluteAnd_spec [OF res(2) y1(2) this] obtain ds where
      ds: "absoluteAnd res y1 True = Inr ds" "digits_in_range ds"
        "mag ds = mag res AND mag y1" by blast
    have "bitwiseOr x y = Inr (trim (absoluteAddOne ds True))"
      using nn res(1) y1(1) ds(1) by (simp add: bitwiseOr_def n_def [symmetric])
    moreover have "- (mag ds + 1) = val x OR val y"
      unfolding ds(3) res(3) y1(3) using nn by (simp only: px(6) py(6) twos_or_neg_neg if_True)
    ultimately show ?thesis using addOne_result [OF ds(2)] by simp
  next
    case pn
    from subOne_sized [OF wy pn(2) an ly] obtain res where
      res: "absoluteSubOne (digits y) n = Inr res" "digits_in_range res"
        "mag res = mag (digits y) - 1" by blast
    have "True \<or> allocatable (length res)" by simp
    from absoluteAndNot_spec [OF res(2) px(1) this] obtain ds where
      ds: "absoluteAndNot res (digits x) True = Inr ds" "digits_in_range ds"
        "mag ds = mag res AND NOT (mag (digits x))" by blast
    have "bitwiseOr x y = Inr (trim (absoluteAddOne ds True))"
      using pn res(1) ds(1) by (simp add: bitwiseOr_def n_def [symmetric])
    moreover have "- (mag ds + 1) = val x OR val y"
      unfolding ds(3) res(3) using pn by (simp only: px(6) py(6) twos_or_pos_neg if_True if_False)
    ultimately show ?thesis using addOne_result [OF ds(2)] by simp
  next
    case np
    from subOne_sized [OF wx np(1) an lx] obtain res where
      res: "absoluteSubOne (digits x) n = Inr res" "digits_in_range res"
        "mag res = mag (digits x) - 1" by blast
    have "True \<or> allocatable (length res)" by simp
    from absoluteAndNot_spec [OF res(2) py(1) this] obtain ds where
      ds: "absoluteAndNot res (digits y) True = Inr ds" "digits_in_range ds"
        "mag ds = mag res AND NOT (mag (digits y))" by blast
    have "bitwiseOr x y = Inr (trim (absoluteAddOne ds True))"
      using np res(1) ds(1) by (simp add: bitwiseOr_def n_def [symmetric])
    moreover have "- (mag ds + 1) = val y OR val x"
      unfolding ds(3) res(3) using np by (simp only: px(6) py(6) twos_or_pos_neg if_True if_False)
    ultimately show ?thesis using addOne_result [OF ds(2)] by (simp add: or.commute)
  qed
qed

lemma bitwiseXor_spec:
  assumes wx: "wellformed x" and wy: "wellformed y"
    and al: "sign x \<noteq> sign y \<longrightarrow>
             allocatable (max (length (digits x)) (length (digits y)) + 1)"
  shows "\<exists>r. bitwiseXor x y = Inr r \<and> invariant r \<and> val r = val x XOR val y"
proof -
  note px = wellformed_parts [OF wx] and py = wellformed_parts [OF wy]
  define n where "n = max (length (digits x)) (length (digits y))"
  have an: "allocatable n" using px(2) py(2) by (simp add: n_def max_def)
  have lx: "length (digits x) \<le> n" and ly: "length (digits y) \<le> n" by (simp_all add: n_def)
  have lx1: "length (digits x) \<le> n + 1" and ly1: "length (digits y) \<le> n + 1"
    by (simp_all add: n_def)
  consider (pp) "\<not> sign x" "\<not> sign y" | (nn) "sign x" "sign y"
    | (pn) "\<not> sign x" "sign y" | (np) "sign x" "\<not> sign y" by blast
  then show ?thesis
  proof cases
    case pp
    have "False \<or> allocatable (max (length (digits x)) (length (digits y)))"
      using an by (simp add: n_def)
    from absoluteXor_spec [OF px(1) py(1) this] obtain ds where
      ds: "absoluteXor (digits x) (digits y) False = Inr ds" "digits_in_range ds"
        "mag ds = mag (digits x) XOR mag (digits y)" by blast
    have "bitwiseXor x y = Inr (trim \<lparr>sign = False, digits = ds\<rparr>)"
      using pp ds(1) by (simp add: bitwiseXor_def)
    then show ?thesis using trim_result [OF ds(2), of False] ds(3) pp
      by (simp add: px(6) py(6))
  next
    case nn
    from subOne_sized [OF wx nn(1) an lx] obtain res where
      res: "absoluteSubOne (digits x) n = Inr res" "digits_in_range res"
        "mag res = mag (digits x) - 1" by blast
    from subOne_own [OF wy nn(2)] obtain y1 where
      y1: "absoluteSubOne (digits y) 0 = Inr y1" "digits_in_range y1"
        "mag y1 = mag (digits y) - 1" by blast
    have "True \<or> allocatable (max (length res) (length y1))" by simp
    from absoluteXor_spec [OF res(2) y1(2) this] obtain ds where
      ds: "absoluteXor res y1 True = Inr ds" "digits_in_range ds"
        "mag ds = mag res XOR mag y1" by blast
    have "bitwiseXor x y = Inr (trim \<lparr>sign = False, digits = ds\<rparr>)"
      using nn res(1) y1(1) ds(1) by (simp add: bitwiseXor_def n_def [symmetric])
    moreover have "mag ds = val x XOR val y"
      unfolding ds(3) res(3) y1(3) using nn by (simp only: px(6) py(6) twos_xor_neg_neg if_True)
    ultimately show ?thesis using trim_result [OF ds(2), of False] by simp
  next
    case pn
    have an1: "allocatable (n + 1)" using al pn by (simp add: n_def)
    from subOne_sized [OF wy pn(2) an1 ly1] obtain res where
      res: "absoluteSubOne (digits y) (n + 1) = Inr res" "digits_in_range res"
        "mag res = mag (digits y) - 1" by blast
    have "True \<or> allocatable (max (length res) (length (digits x)))" by simp
    from absoluteXor_spec [OF res(2) px(1) this] obtain ds where
      ds: "absoluteXor res (digits x) True = Inr ds" "digits_in_range ds"
        "mag ds = mag res XOR mag (digits x)" by blast
    have "bitwiseXor x y = Inr (trim (absoluteAddOne ds True))"
      using pn res(1) ds(1) by (simp add: bitwiseXor_def n_def [symmetric])
    moreover have "- (mag ds + 1) = val x XOR val y"
      unfolding ds(3) res(3) using pn by (simp only: px(6) py(6) twos_xor_pos_neg if_True if_False)
    ultimately show ?thesis using addOne_result [OF ds(2)] by simp
  next
    case np
    have an1: "allocatable (n + 1)" using al np by (simp add: n_def)
    from subOne_sized [OF wx np(1) an1 lx1] obtain res where
      res: "absoluteSubOne (digits x) (n + 1) = Inr res" "digits_in_range res"
        "mag res = mag (digits x) - 1" by blast
    have "True \<or> allocatable (max (length res) (length (digits y)))" by simp
    from absoluteXor_spec [OF res(2) py(1) this] obtain ds where
      ds: "absoluteXor res (digits y) True = Inr ds" "digits_in_range ds"
        "mag ds = mag res XOR mag (digits y)" by blast
    have "bitwiseXor x y = Inr (trim (absoluteAddOne ds True))"
      using np res(1) ds(1) by (simp add: bitwiseXor_def n_def [symmetric])
    moreover have "- (mag ds + 1) = val y XOR val x"
      unfolding ds(3) res(3) using np by (simp only: px(6) py(6) twos_xor_pos_neg if_True if_False)
    ultimately show ?thesis using addOne_result [OF ds(2)] by (simp add: xor.commute)
  qed
qed

section \<open>Division by zero\<close>

text \<open>
  Claim C9. For every BigInt \<open>x\<close>, \<open>divide(x, 0)\<close> and \<open>remainder(x, 0)\<close> raise
  the RangeError "Division by zero": the check on the divisor is the first statement of
  both functions, so nothing is computed and no partial result is handed back.
\<close>

theorem divide_remainder_by_zero:
  "divide x zero = Inl (RangeError ''Division by zero'') \<and>
   remainder x zero = Inl (RangeError ''Division by zero'')"
  by (simp add: divide_def remainder_def zero_def)

theorem divide_remainder_by_zero_witness:
  "divide (oneDigit 5 True) zero = Inl (RangeError ''Division by zero'') \<and>
   remainder (oneDigit 5 True) zero = Inl (RangeError ''Division by zero'')"
  using divide_remainder_by_zero [of "oneDigit 5 True"] by simp

section \<open>Exponentiation: the failure surface\<close>

text \<open>
  Claim C8 as stated fails: the fast paths for the bases 0, 1 and -1 come before the test of
  the exponent's size, so \<open>exponentiate(0, 2^30)\<close> returns 0 although the exponent has two
  digits.
\<close>

theorem exponentiate_oversized_counterexample:
  "length (digits \<lparr>sign = False, digits = [0, 1]\<rparr>) > 1 \<and>
   exponentiate zero \<lparr>sign = False, digits = [0, 1]\<rparr> = Inr zero"
  by (simp add: exponentiate_def zero_def)

text \<open>
  Claim C8, amended. \<open>exponentiate(x, y)\<close> raises a RangeError whenever \<open>y\<close> is negative.
  For a non-negative, non-zero \<open>y\<close>: base 0 gives 0 and base 1 or -1 gives 1 or -1 whatever
  the size of \<open>y\<close>; every other base raises the RangeError "BigInt too big" when \<open>y\<close> has
  more than one digit or its single digit is at least \<open>MAX_LENGTH_BITS\<close>. For every
  \<open>x\<close>, \<open>exponentiate(x, 0) = 1\<close>.
\<close>

theorem exponentiate_errors:
  "(sign y \<longrightarrow> exponentiate x y = Inl (RangeError ''Exponent must be positive'')) \<and>
   (\<not> sign y \<and> digits y \<noteq> [] \<and> digits x = [] \<longrightarrow> exponentiate x y = Inr x) \<and>
   (\<not> sign y \<and> digits y \<noteq> [] \<and> digits x = [1] \<longrightarrow>
      exponentiate x y = Inr (if sign x \<and> js_and (digits y ! 0) 1 = 0 then unaryMinus x else x)) \<and>
   (\<not> sign y \<and> digits x \<noteq> [] \<and> digits x \<noteq> [1] \<and>
      (length (digits y) > 1 \<or>
       (length (digits y) = 1 \<and> unsignedDigit (digits y) 0 \<ge> kMaxLengthBits)) \<longrightarrow>
      exponentiate x y = Inl (RangeError ''BigInt too big'')) \<and>
   exponentiate x zero = Inr (oneDigit 1 False)"
proof -
  have one: "(length xs = Suc 0 \<and> xs ! 0 = (1::int)) = (xs = [1])" for xs
    by (cases xs) auto
  show ?thesis
    by (simp add: exponentiate_def zero_def one Let_def kMaxLengthBits_def)
qed

theorem exponentiate_errors_witness:
  "exponentiate (oneDigit 3 False) (oneDigit 5 True) = Inl (RangeError ''Exponent must be positive'') \<and>
   exponentiate zero \<lparr>sign = False, digits = [0, 1]\<rparr> = Inr zero \<and>
   exponentiate (oneDigit 1 True) \<lparr>sign = False, digits = [0, 1]\<rparr> = Inr (oneDigit 1 False) \<and>
   exponentiate (oneDigit 3 False) \<lparr>sign = False, digits = [0, 1]\<rparr> = Inl (RangeError ''BigInt too big'') \<and>
   exponentiate (oneDigit 3 False) zero = Inr (oneDigit 1 False)"
  using exponentiate_errors [of "oneDigit 5 True" "oneDigit 3 False"]
        exponentiate_errors [of "\<lparr>sign = False, digits = [0, 1]\<rparr>" zero]
        exponentiate_errors [of "\<lparr>sign = False, digits = [0, 1]\<rparr>" "oneDigit 1 True"]
        exponentiate_errors [of "\<lparr>sign = False, digits = [0, 1]\<rparr>" "oneDigit 3 False"]
  by (simp add: oneDigit_def zero_def toInt32_def js_and_def unaryMinus_def)

section \<open>The string constructor on blank and truncated input\<close>

lemma gen_inner_length:
  "gen_inner radix ld la cs part mult chars = (p, m, c, cs', dn) \<Longrightarrow> length cs' \<le> length cs"
proof (induction cs arbitrary: part mult chars)
  case Nil
  then show ?case by simp
next
  case (Cons a cs)
  then show ?case
    by (auto simp: Let_def split: option.splits if_splits) fastforce
qed

lemma gen_inner_progress:
  assumes "gen_inner radix ld la cs part 1 chars = (p, m, c, cs', False)"
    and "radix \<le> 0x3FFFFFFF"
  shows "length cs' < length cs"
proof (cases cs)
  case Nil
  with assms show ?thesis by simp
next
  case (Cons a rest)
  with assms show ?thesis
    by (auto simp: Let_def split: option.splits if_splits dest: gen_inner_length)
qed

lemma skipWhitespace_all: "list_all isWhitespace ws \<Longrightarrow> \<not> isWhitespace c \<Longrightarrow>
   skipWhitespace (ws @ c # cs) = c # cs"
  by (induction ws) auto

lemma skipWhitespace_only: "list_all isWhitespace ws \<Longrightarrow> skipWhitespace ws = []"
  by (induction ws) auto

lemma not_ws_chars: "\<not> isWhitespace 0x2B" "\<not> isWhitespace 0x2D" "\<not> isWhitespace 0x30"
  by (simp_all add: isWhitespace_def)

text \<open>
  What the constructor does when whitespace is read as what the parser's own predicate
  \<open>__isWhitespace\<close> accepts: \<open>BigInt(s)\<close> returns zero for the empty string and for
  every string of such characters only, and a string that, after such characters, ends right
  after a sign, or right after a base prefix \<open>0x\<close>, \<open>0o\<close>, \<open>0b\<close> (either case, with or
  without a sign before it), is rejected with a SyntaxError.
\<close>

theorem BigInt_string_blank_and_truncated:
  "(list_all isWhitespace ws \<longrightarrow> BigInt_string ws = Inr zero) \<and>
   (list_all isWhitespace ws \<longrightarrow>
      BigInt_string (ws @ [0x2B]) = Inl SyntaxError \<and>
      BigInt_string (ws @ [0x2D]) = Inl SyntaxError) \<and>
   (list_all isWhitespace ws \<and> p \<in> set [0x58, 0x78, 0x4F, 0x6F, 0x42, 0x62] \<longrightarrow>
      BigInt_string (ws @ [0x30, p]) = Inl SyntaxError \<and>
      BigInt_string (ws @ [0x2B, 0x30, p]) = Inl SyntaxError \<and>
      BigInt_string (ws @ [0x2D, 0x30, p]) = Inl SyntaxError)"
  by (auto simp: BigInt_string_def fromString_def afterSign_def skipWhitespace_all
        skipWhitespace_only not_ws_chars Let_def)

theorem BigInt_string_blank_and_truncated_witness:
  "BigInt_string [] = Inr zero \<and>
   BigInt_string [0x20, 0x09, 0xA0] = Inr zero \<and>
   BigInt_string [0x20, 0x2B] = Inl SyntaxError \<and>
   BigInt_string [0x20, 0x2D] = Inl SyntaxError \<and>
   BigInt_string [0x20, 0x30, 0x78] = Inl SyntaxError \<and>
   BigInt_string [0x20, 0x2D, 0x30, 0x78] = Inl SyntaxError"
  using BigInt_string_blank_and_truncated [where ws = "[]" and p = "0x78"]
        BigInt_string_blank_and_truncated [where ws = "[0x20, 0x09, 0xA0]" and p = "0x78"]
        BigInt_string_blank_and_truncated [where ws = "[0x20]" and p = "0x78"]
  by (simp add: isWhitespace_def)

text \<open>
  \<open>__isWhitespace\<close> on a UTF-16 code unit. The test \<open>c <= 0x01FFFF\<close> holds for every
  code unit above \<open>0x9F\<close>, so the two branches after it, written for U+2000 to U+200A,
  U+2028, U+2029, U+202F, U+205F, U+3000 and U+FEFF, are never reached: the predicate accepts
  exactly tab to carriage return, space, U+00A0 and U+1680.
\<close>

lemma isWhitespace_code_unit:
  "0 \<le> c \<Longrightarrow> c \<le> 0xFFFF \<Longrightarrow>
   isWhitespace c = (c \<in> set [0x09, 0x0A, 0x0B, 0x0C, 0x0D, 0x20, 0xA0, 0x1680])"
  unfolding isWhitespace_def by (simp del: set_simps add: Let_def) auto

text \<open>
  Claim C10 fails in the code. It says that \<open>BigInt(s)\<close> returns zero for every string that
  consists solely of whitespace characters. For the one-character strings made of a space
  character U+2000 to U+200A, U+2028, U+2029, U+202F, U+205F, U+3000 or of U+FEFF, which
  \<open>__isWhitespace\<close> is written to accept in branches that no code unit reaches, the parser
  does not skip the character, finds no digit, and \<open>BigInt(s)\<close> raises a SyntaxError.
\<close>

theorem BigInt_string_unicode_space_rejected:
  "list_all (\<lambda>c. \<not> isWhitespace c \<and> BigInt_string [c] = Inl SyntaxError)
     [0x2000, 0x2001, 0x2002, 0x2003, 0x2004, 0x2005, 0x2006, 0x2007, 0x2008, 0x2009, 0x200A,
      0x2028, 0x2029, 0x202F, 0x205F, 0x3000, 0xFEFF]"
  by code_simp

section \<open>Truncation to a bit width: range and idempotence\<close>

text \<open>
  Claim C7 as stated fails: \<open>asUintN(n, a)\<close> does not return for every \<open>n \<ge> 0\<close>: for the
  BigInt \<open>-1\<close> and \<open>n = 2^30 + 1\<close> it raises the RangeError \<open>BigInt too big\<close>, and
  for \<open>n = 30 * 2^25 + 1\<close> the result needs one digit more than a BigInt may have.
\<close>

theorem asUintN_negative_counterexample:
  "wellformed \<lparr>sign = True, digits = [1]\<rparr> \<and>
   asUintN 1073741825 \<lparr>sign = True, digits = [1]\<rparr> = Inl (RangeError ''BigInt too big'') \<and>
   asUintN 1006632961 \<lparr>sign = True, digits = [1]\<rparr>
     = Inl (RangeError ''Maximum BigInt size exceeded'')"
proof -
  have d: "js_div (1006632961 + 29) 30 = 33554433"
    by (simp add: js_div_def toInt32_def)
  have "\<not> allocatable (nat 33554433)"
    by (simp add: allocatable_def kMaxLength_def)
  then have "truncateAndSubFromPowerOfTwo 1006632961 \<lparr>sign = True, digits = [1]\<rparr> False
      = Inl (RangeError ''Maximum BigInt size exceeded'')"
    unfolding truncateAndSubFromPowerOfTwo_def d Let_def by (simp only: not_False_eq_True if_True)
  moreover have "wellformed \<lparr>sign = True, digits = [1]\<rparr>"
    by (simp add: wellformed_def invariant_def digits_in_range_def allocatable_def kMaxLength_def)
  moreover have "asUintN 1073741825 \<lparr>sign = True, digits = [1]\<rparr>
      = Inl (RangeError ''BigInt too big'')"
    by (simp add: asUintN_def kMaxLengthBits_def)
  moreover have "asUintN 1006632961 \<lparr>sign = True, digits = [1]\<rparr>
      = truncateAndSubFromPowerOfTwo 1006632961 \<lparr>sign = True, digits = [1]\<rparr> False"
    by (simp add: asUintN_def kMaxLengthBits_def)
  ultimately show ?thesis by (simp only: simp_thms)
qed

text \<open>
  Claim C7, amended. For every BigInt \<open>a\<close>: for \<open>n \<ge> 0\<close>, and \<open>n\<close> at most
  \<open>30 * kMaxLength\<close> bits when \<open>a\<close> is negative, \<open>asUintN(n, a)\<close> returns a value
  \<open>r\<close> that \<open>asUintN(n, .)\<close> maps to itself and that is \<open>a mod 2^n\<close>, so it lies in
  \<open>[0, 2^n)\<close>; for negative \<open>a\<close> and \<open>n > kMaxLengthBits\<close> it raises a RangeError; and
  for every \<open>n \<ge> 1\<close>, \<open>asIntN(n, a)\<close> returns a value in \<open>[-2^(n-1), 2^(n-1))\<close>
  congruent to \<open>a\<close> modulo \<open>2^n\<close>.
\<close>

theorem asUintN_asIntN_range:
  assumes wf: "wellformed a"
  shows "(0 \<le> n \<and> (\<not> sign a \<or> n \<le> 30 * kMaxLength) \<longrightarrow>
            (\<exists>r. asUintN n a = Inr r \<and> asUintN n r = Inr r \<and> invariant r \<and>
                 val r = val a mod 2 ^ nat n \<and> 0 \<le> val r \<and> val r < 2 ^ nat n)) \<and>
         (sign a \<and> kMaxLengthBits < n \<longrightarrow> asUintN n a = Inl (RangeError ''BigInt too big'')) \<and>
         (1 \<le> n \<longrightarrow>
            (\<exists>r. asIntN n a = Inr r \<and> invariant r \<and>
                 val r = (val a + 2 ^ (nat n - 1)) mod 2 ^ nat n - 2 ^ (nat n - 1) \<and>
                 - (2 ^ (nat n - 1)) \<le> val r \<and> val r < 2 ^ (nat n - 1)))"
proof (intro conjI impI)
  assume h: "0 \<le> n \<and> (\<not> sign a \<or> n \<le> 30 * kMaxLength)"
  then have n: "0 \<le> n" and ok: "\<not> sign a \<or> n \<le> 1006632960"
    by (simp_all add: kMaxLength_def)
  from asUintN_spec [OF wf n ok] obtain r where
    r: "asUintN n a = Inr r" "invariant r" "\<not> sign r"
       "mag (digits r) = val a mod 2 ^ nat n" by blast
  have v: "val r = val a mod 2 ^ nat n" using r(3,4) by (simp add: val_def)
  have lo: "0 \<le> val r" unfolding v by simp
  have hi: "val r < 2 ^ nat n" unfolding v by simp
  have "mag (digits r) < 2 ^ nat n" unfolding r(4) by simp
  with r(2,3) have "asUintN n r = Inr r" using n by (rule asUintN_fixed)
  with r(1,2) v lo hi
  show "\<exists>r. asUintN n a = Inr r \<and> asUintN n r = Inr r \<and> invariant r \<and>
             val r = val a mod 2 ^ nat n \<and> 0 \<le> val r \<and> val r < 2 ^ nat n" by blast
next
  assume h: "sign a \<and> kMaxLengthBits < n"
  have "digits a \<noteq> []" using wf h by (auto simp: wellformed_def invariant_def)
  then show "asUintN n a = Inl (RangeError ''BigInt too big'')"
    using h by (simp add: asUintN_def kMaxLengthBits_def)
next
  assume n: "1 \<le> n"
  define H :: int where "H = 2 ^ (nat n - 1)"
  have M: "(2::int) ^ nat n = 2 * H" unfolding H_def using n by (rule pow_n_double)
  have H0: "0 < H" by (simp add: H_def)
  from asIntN_spec [OF wf n] obtain r where
    r: "asIntN n a = Inr r" "invariant r"
       "val r = (val a + 2 ^ (nat n - 1)) mod 2 ^ nat n - 2 ^ (nat n - 1)" by blast
  have v: "val r = (val a + H) mod (2 * H) - H" using r(3) by (simp only: M H_def)
  have "0 \<le> (val a + H) mod (2 * H)" "(val a + H) mod (2 * H) < 2 * H" using H0 by simp_all
  then have "- H \<le> val r" "val r < H" unfolding v by linarith+
  then have "- (2 ^ (nat n - 1)) \<le> val r" "val r < 2 ^ (nat n - 1)" by (simp_all only: H_def)
  with r show "\<exists>r. asIntN n a = Inr r \<and> invariant r \<and>
       val r = (val a + 2 ^ (nat n - 1)) mod 2 ^ nat n - 2 ^ (nat n - 1) \<and>
       - (2 ^ (nat n - 1)) \<le> val r \<and> val r < 2 ^ (nat n - 1)" by blast
qed

theorem asUintN_asIntN_range_witness:
  "wellformed \<lparr>sign = True, digits = [5]\<rparr> \<and>
   (\<exists>r. asUintN 3 \<lparr>sign = True, digits = [5]\<rparr> = Inr r \<and> asUintN 3 r = Inr r \<and>
        val r = 3) \<and>
   asUintN 1073741825 \<lparr>sign = True, digits = [5]\<rparr> = Inl (RangeError ''BigInt too big'') \<and>
   (\<exists>r. asIntN 3 \<lparr>sign = True, digits = [5]\<rparr> = Inr r \<and> val r = 3)"
proof -
  have wf: "wellformed \<lparr>sign = True, digits = [5]\<rparr>"
    by (simp add: wellformed_def invariant_def digits_in_range_def allocatable_def kMaxLength_def)
  have v: "val \<lparr>sign = True, digits = [5]\<rparr> = - 5" by (simp add: val_def)
  have e1: "(- 5 :: int) mod 2 ^ nat 3 = 3" by simp
  have e2: "((- 5 :: int) + 2 ^ (nat 3 - 1)) mod 2 ^ nat 3 - 2 ^ (nat 3 - 1) = 3" by simp
  note t3 = asUintN_asIntN_range [OF wf, of 3, unfolded v e1 e2]
  note tb = asUintN_asIntN_range [OF wf, of 1073741825, THEN conjunct2, THEN conjunct1]
  have a: "\<exists>r. asUintN 3 \<lparr>sign = True, digits = [5]\<rparr> = Inr r \<and> asUintN 3 r = Inr r \<and> val r = 3"
    using t3 by (simp add: kMaxLength_def) blast
  have b: "\<exists>r. asIntN 3 \<lparr>sign = True, digits = [5]\<rparr> = Inr r \<and> val r = 3"
    using t3 by simp blast
  have c: "asUintN 1073741825 \<lparr>sign = True, digits = [5]\<rparr> = Inl (RangeError ''BigInt too big'')"
  proof (rule tb [THEN mp])
    show "sign \<lparr>sign = True, digits = [5]\<rparr> \<and> kMaxLengthBits < 1073741825"
      by (simp add: kMaxLengthBits_def)
  qed
  show ?thesis using wf a b c by (simp only: simp_thms)
qed

section \<open>Shifts: rounding, oversized amounts and the round trip\<close>

text \<open>
  Claim C5 as stated fails in its last part. The claim puts no condition on the shift count
  \<open>n\<close>. For a negative count the two functions swap roles, and
  \<open>signedRightShift(leftShift(5, -1), -1)\<close> is 4: \<open>leftShift(5, -1)\<close> is 2. For the count
  \<open>2^30\<close>, which has two digits, \<open>leftShift(1, 2^30)\<close> raises the RangeError
  \<open>BigInt too big\<close>.
\<close>

theorem leftShift_round_trip_counterexample:
  "leftShift \<lparr>sign = False, digits = [5]\<rparr> \<lparr>sign = True, digits = [1]\<rparr>
     = Inr \<lparr>sign = False, digits = [2]\<rparr> \<and>
   signedRightShift \<lparr>sign = False, digits = [2]\<rparr> \<lparr>sign = True, digits = [1]\<rparr>
     = Inr \<lparr>sign = False, digits = [4]\<rparr> \<and>
   leftShift \<lparr>sign = False, digits = [1]\<rparr> \<lparr>sign = False, digits = [0, 1]\<rparr>
     = Inl (RangeError ''BigInt too big'')"
  by code_simp

text \<open>
  Claim C5, amended. For BigInts \<open>a\<close> and \<open>n\<close> with \<open>n \<ge> 0\<close>:
  \<open>signedRightShift(a, n)\<close> returns \<open>floor(a / 2^n)\<close>, whose magnitude is that of \<open>a\<close>
  shifted right by \<open>n\<close> bits, plus 1 iff \<open>a\<close> is negative and a bit shifted out was set;
  when \<open>|a| < 2^n\<close>, that is when \<open>n\<close> is at least the bit length of \<open>a\<close>, it returns 0
  for \<open>a \<ge> 0\<close> and \<open>-1\<close> for \<open>a < 0\<close>; whenever \<open>leftShift(a, n)\<close> returns, for \<open>a\<close> of
  either sign, \<open>signedRightShift(leftShift(a, n), n) = a\<close>; and \<open>leftShift(a, n)\<close> does
  return when \<open>n\<close> has at most one digit and \<open>length(a) + n div 30 + 1\<close> digits can be
  allocated.
\<close>

theorem signedRightShift_floor_and_round_trip:
  assumes wa: "wellformed a" and wn: "wellformed n" and nn: "\<not> sign n"
  shows "(\<exists>r. signedRightShift a n = Inr r \<and> invariant r \<and>
              val r = val a div 2 ^ nat (val n) \<and>
              mag (digits r) = mag (digits a) div 2 ^ nat (val n)
                + (if sign a \<and> mag (digits a) mod 2 ^ nat (val n) \<noteq> 0 then 1 else 0)) \<and>
         (mag (digits a) < 2 ^ nat (val n) \<longrightarrow>
            signedRightShift a n = Inr (if sign a then oneDigit 1 True else zero)) \<and>
         (\<forall>r. leftShift a n = Inr r \<longrightarrow> signedRightShift r n = Inr a) \<and>
         (length (digits n) \<le> 1 \<and> allocatable (length (digits a) + nat (val n div 30) + 1) \<longrightarrow>
            (\<exists>r. leftShift a n = Inr r))"
proof (intro conjI impI allI)
  have ia: "invariant a" using wa by (simp add: wellformed_def)
  have iy: "invariant n" using wn by (simp add: wellformed_def)
  have vn: "val n = mag (digits n)" using nn by (simp add: val_def)
  show "\<exists>r. signedRightShift a n = Inr r \<and> invariant r \<and>
              val r = val a div 2 ^ nat (val n) \<and>
              mag (digits r) = mag (digits a) div 2 ^ nat (val n)
                + (if sign a \<and> mag (digits a) mod 2 ^ nat (val n) \<noteq> 0 then 1 else 0)"
    using wa iy nn by (rule signedRightShift_spec)
  {
    assume lt: "mag (digits a) < 2 ^ nat (val n)"
    from signedRightShift_spec [OF wa iy nn] obtain r where
      r: "signedRightShift a n = Inr r" "invariant r" "val r = val a div 2 ^ nat (val n)"
      by blast
    have m0: "0 \<le> mag (digits a)" using ia by (intro mag_nonneg) (simp add: invariant_def)
    have "r = (if sign a then oneDigit 1 True else zero)"
    proof (cases "sign a")
      case True
      then have "digits a \<noteq> []" using ia by (auto simp: invariant_def)
      then have p: "0 < mag (digits a)" using ia by (intro invariant_nonempty_pos)
      have "mag (digits a) mod 2 ^ nat (val n) = mag (digits a)"
        "mag (digits a) div 2 ^ nat (val n) = 0"
        using p lt by (simp_all add: mod_pos_pos_trivial div_pos_pos_trivial)
      then have "(- mag (digits a)) div 2 ^ nat (val n) = - 1"
        using p by (simp add: zdiv_zminus1_eq_if)
      then have "val r = - 1" using r(3) True by (simp add: val_def)
      moreover have "val (oneDigit 1 True) = - 1"
        by (simp add: val_def oneDigit_def toInt32_id)
      moreover have "invariant (oneDigit 1 True)"
        by (simp add: invariant_def oneDigit_def toInt32_id)
      ultimately have "r = oneDigit 1 True" using r(2) by (intro invariant_val_inj) simp_all
      then show ?thesis using True by simp
    next
      case False
      then have "val r = 0" using r(3) m0 lt by (simp add: val_def div_pos_pos_trivial)
      then have "r = zero" using r(2) by (intro invariant_val_inj) simp_all
      then show ?thesis using False by simp
    qed
    then show "signedRightShift a n = Inr (if sign a then oneDigit 1 True else zero)"
      using r(1) by simp
  }
  {
    fix r assume ls: "leftShift a n = Inr r"
    note l = leftShift_spec [OF wa iy nn ls]
    have wr: "wellformed r" and vr: "val r = val a * 2 ^ nat (val n)" using l by blast+
    from signedRightShift_spec [OF wr iy nn] obtain r' where
      r': "signedRightShift r n = Inr r'" "invariant r'" "val r' = val r div 2 ^ nat (val n)"
      by blast
    have "val r' = val a" unfolding r'(3) vr by simp
    with r'(2) ia have "r' = a" by (rule invariant_val_inj)
    then show "signedRightShift r n = Inr a" using r'(1) by simp
  }
  {
    assume h: "length (digits n) \<le> 1 \<and>
      allocatable (length (digits a) + nat (val n div 30) + 1)"
    show "\<exists>r. leftShift a n = Inr r"
    proof (cases "digits n = [] \<or> digits a = []")
      case True
      then show ?thesis by (simp add: leftShift_def)
    next
      case False
      then have na: "digits a \<noteq> []" and ln: "length (digits n) = 1"
        using h by (cases "digits n"; simp)+
      have "\<exists>r. leftShiftByAbsolute a n = Inr r"
        using wa na iy ln h unfolding vn by (intro leftShiftByAbsolute_returns) simp_all
      then show ?thesis using False nn by (simp add: leftShift_def)
    qed
  }
qed

theorem signedRightShift_floor_and_round_trip_witness:
  "wellformed \<lparr>sign = True, digits = [5]\<rparr> \<and> wellformed \<lparr>sign = False, digits = [1]\<rparr> \<and>
   (\<exists>r. signedRightShift \<lparr>sign = True, digits = [5]\<rparr> \<lparr>sign = False, digits = [1]\<rparr> = Inr r \<and>
        val r = - 3 \<and> mag (digits r) = 3) \<and>
   signedRightShift \<lparr>sign = True, digits = [5]\<rparr> \<lparr>sign = False, digits = [3]\<rparr>
     = Inr (oneDigit 1 True) \<and>
   (\<exists>r. leftShift \<lparr>sign = True, digits = [5]\<rparr> \<lparr>sign = False, digits = [1]\<rparr> = Inr r \<and>
        signedRightShift r \<lparr>sign = False, digits = [1]\<rparr> = Inr \<lparr>sign = True, digits = [5]\<rparr>)"
proof -
  have wa: "wellformed \<lparr>sign = True, digits = [5]\<rparr>"
    by (simp add: wellformed_def invariant_def digits_in_range_def allocatable_def kMaxLength_def)
  have w1: "wellformed \<lparr>sign = False, digits = [1]\<rparr>"
    by (simp add: wellformed_def invariant_def digits_in_range_def allocatable_def kMaxLength_def)
  have w3: "wellformed \<lparr>sign = False, digits = [3]\<rparr>"
    by (simp add: wellformed_def invariant_def digits_in_range_def allocatable_def kMaxLength_def)
  have n1: "\<not> sign \<lparr>sign = False, digits = [1]\<rparr>" by simp
  have n3: "\<not> sign \<lparr>sign = False, digits = [3]\<rparr>" by simp
  note t1 = signedRightShift_floor_and_round_trip [OF wa w1 n1]
  note t3 = signedRightShift_floor_and_round_trip [OF wa w3 n3]
  have va: "val \<lparr>sign = True, digits = [5]\<rparr> = - 5" by (simp add: val_def)
  have v1: "val \<lparr>sign = False, digits = [1]\<rparr> = 1" by (simp add: val_def)
  have v3: "val \<lparr>sign = False, digits = [3]\<rparr> = 3" by (simp add: val_def)
  have a: "\<exists>r. signedRightShift \<lparr>sign = True, digits = [5]\<rparr> \<lparr>sign = False, digits = [1]\<rparr> = Inr r \<and>
        val r = - 3 \<and> mag (digits r) = 3"
    using t1 [THEN conjunct1] unfolding va v1 by simp blast
  have b: "signedRightShift \<lparr>sign = True, digits = [5]\<rparr> \<lparr>sign = False, digits = [3]\<rparr>
     = Inr (oneDigit 1 True)"
    using t3 [THEN conjunct2, THEN conjunct1] unfolding v3 by simp
  have "allocatable (Suc (Suc 0))" by (simp add: allocatable_def kMaxLength_def)
  then obtain r where r: "leftShift \<lparr>sign = True, digits = [5]\<rparr> \<lparr>sign = False, digits = [1]\<rparr> = Inr r"
    using t1 [THEN conjunct2, THEN conjunct2, THEN conjunct2] unfolding v1 by auto
  then have "signedRightShift r \<lparr>sign = False, digits = [1]\<rparr> = Inr \<lparr>sign = True, digits = [5]\<rparr>"
    using t1 [THEN conjunct2, THEN conjunct2, THEN conjunct1] by blast
  with r have c: "\<exists>r. leftShift \<lparr>sign = True, digits = [5]\<rparr> \<lparr>sign = False, digits = [1]\<rparr> = Inr r \<and>
        signedRightShift r \<lparr>sign = False, digits = [1]\<rparr> = Inr \<lparr>sign = True, digits = [5]\<rparr>"
    by blast
  show ?thesis using wa w1 a b c by (simp only: simp_thms)
qed

section \<open>Bitwise operations: two's-complement semantics\<close>

text \<open>
  Claim C4 as stated fails at the largest BigInts. For two negative operands \<open>bitwiseAnd\<close>,
  and for operands of different signs \<open>bitwiseXor\<close>, allocate one digit more than the longer
  operand has. With \<open>x = -(2^30)^(2^25 - 1)\<close>, a BigInt of \<open>kMaxLength = 2^25\<close> digits, the
  allocation of \<open>2^25 + 1\<close> digits raises a RangeError, although \<open>x & x = x\<close> and
  \<open>x ^ 1 = x + 1\<close> have no more digits than \<open>x\<close>.
\<close>

theorem bitwise_max_length_counterexample:
  "wellformed \<lparr>sign = True, digits = replicate 33554431 0 @ [1]\<rparr> \<and>
   wellformed \<lparr>sign = False, digits = [1]\<rparr> \<and>
   bitwiseAnd \<lparr>sign = True, digits = replicate 33554431 0 @ [1]\<rparr>
              \<lparr>sign = True, digits = replicate 33554431 0 @ [1]\<rparr>
     = Inl (RangeError ''Maximum BigInt size exceeded'') \<and>
   bitwiseXor \<lparr>sign = True, digits = replicate 33554431 0 @ [1]\<rparr> \<lparr>sign = False, digits = [1]\<rparr>
     = Inl (RangeError ''Maximum BigInt size exceeded'')"
proof -
  define big :: "int list" where "big = replicate 33554431 0 @ [1]"
  have len: "length big = 33554432" unfolding big_def by (simp only: length_append length_replicate) simp
  have rng: "digits_in_range big" unfolding big_def by (simp only: digits_in_range_simps digits_in_range_replicate0) simp
  have lst: "last big = 1" "big \<noteq> []" unfolding big_def by (simp_all only: last_snoc) simp
  have al: "allocatable (length big)" "\<not> allocatable (length big + 1)"
    unfolding len by (simp_all add: allocatable_def kMaxLength_def)
  have w1: "wellformed \<lparr>sign = True, digits = big\<rparr>"
    using rng lst al(1) by (simp add: wellformed_def invariant_def)
  have w2: "wellformed \<lparr>sign = False, digits = [1]\<rparr>"
    by (simp add: wellformed_def invariant_def allocatable_def kMaxLength_def)
  have s: "absoluteSubOne big (length big + 1) = Inl (RangeError ''Maximum BigInt size exceeded'')"
    using al(2) by (simp add: absoluteSubOne_def Let_def)
  have a: "bitwiseAnd \<lparr>sign = True, digits = big\<rparr> \<lparr>sign = True, digits = big\<rparr>
     = Inl (RangeError ''Maximum BigInt size exceeded'')"
    using s by (simp add: bitwiseAnd_def Let_def)
  have m: "max (length big) (length [1::int]) = length big" unfolding len by simp
  have x: "bitwiseXor \<lparr>sign = True, digits = big\<rparr> \<lparr>sign = False, digits = [1]\<rparr>
     = Inl (RangeError ''Maximum BigInt size exceeded'')"
    unfolding bitwiseXor_def Let_def using s by (simp add: m del: length_Cons list.size)
  show ?thesis using w1 w2 a x unfolding big_def by (simp only: simp_thms)
qed

text \<open>
  Claim C4, amended. For BigInts \<open>x\<close> and \<open>y\<close> of any signs: \<open>bitwiseOr(x, y)\<close> returns the
  integer \<open>x OR y\<close>; \<open>bitwiseAnd(x, y)\<close> returns \<open>x AND y\<close>, unless both are negative and
  one digit more than the longer operand cannot be allocated, when it raises a RangeError;
  \<open>bitwiseXor(x, y)\<close> returns \<open>x XOR y\<close>, unless the signs differ and one digit more than
  the longer operand cannot be allocated, when it raises a RangeError. \<open>AND\<close>, \<open>OR\<close> and
  \<open>XOR\<close> on \<^typ>\<open>int\<close> are the bitwise operations on the infinite two's-complement bit
  strings. Every result satisfies the representation invariant.
\<close>

theorem bitwise_twos_complement:
  assumes wx: "wellformed x" and wy: "wellformed y"
  shows "(\<exists>r. bitwiseOr x y = Inr r \<and> invariant r \<and> val r = val x OR val y) \<and>
         (if sign x \<and> sign y \<and>
             \<not> allocatable (max (length (digits x)) (length (digits y)) + 1)
          then bitwiseAnd x y = Inl (RangeError ''Maximum BigInt size exceeded'')
          else \<exists>r. bitwiseAnd x y = Inr r \<and> invariant r \<and> val r = val x AND val y) \<and>
         (if sign x \<noteq> sign y \<and>
             \<not> allocatable (max (length (digits x)) (length (digits y)) + 1)
          then bitwiseXor x y = Inl (RangeError ''Maximum BigInt size exceeded'')
          else \<exists>r. bitwiseXor x y = Inr r \<and> invariant r \<and> val r = val x XOR val y)"
proof (intro conjI)
  show "\<exists>r. bitwiseOr x y = Inr r \<and> invariant r \<and> val r = val x OR val y"
    using wx wy by (rule bitwiseOr_spec)
  have sub: "\<not> allocatable n \<Longrightarrow> n \<noteq> 0 \<Longrightarrow>
      absoluteSubOne ds n = Inl (RangeError ''Maximum BigInt size exceeded'')" for ds n
    by (simp add: absoluteSubOne_def Let_def)
  show "if sign x \<and> sign y \<and>
             \<not> allocatable (max (length (digits x)) (length (digits y)) + 1)
          then bitwiseAnd x y = Inl (RangeError ''Maximum BigInt size exceeded'')
          else \<exists>r. bitwiseAnd x y = Inr r \<and> invariant r \<and> val r = val x AND val y"
  proof (cases "sign x \<and> sign y \<and>
             \<not> allocatable (max (length (digits x)) (length (digits y)) + 1)")
    case True
    then have "absoluteSubOne (digits x) (max (length (digits x)) (length (digits y)) + 1)
        = Inl (RangeError ''Maximum BigInt size exceeded'')" by (intro sub) simp_all
    then have "bitwiseAnd x y = Inl (RangeError ''Maximum BigInt size exceeded'')"
      using True by (simp add: bitwiseAnd_def Let_def)
    then show ?thesis using True by simp
  next
    case False
    then have "sign x \<and> sign y \<longrightarrow>
        allocatable (max (length (digits x)) (length (digits y)) + 1)" by blast
    from bitwiseAnd_spec [OF wx wy this] show ?thesis unfolding if_not_P [OF False] .
  qed
  show "if sign x \<noteq> sign y \<and>
             \<not> allocatable (max (length (digits x)) (length (digits y)) + 1)
          then bitwiseXor x y = Inl (RangeError ''Maximum BigInt size exceeded'')
          else \<exists>r. bitwiseXor x y = Inr r \<and> invariant r \<and> val r = val x XOR val y"
  proof (cases "sign x \<noteq> sign y \<and>
             \<not> allocatable (max (length (digits x)) (length (digits y)) + 1)")
    case True
    then have "absoluteSubOne ds (max (length (digits x)) (length (digits y)) + 1)
        = Inl (RangeError ''Maximum BigInt size exceeded'')" for ds by (intro sub) simp_all
    then have "bitwiseXor x y = Inl (RangeError ''Maximum BigInt size exceeded'')"
      using True by (auto simp: bitwiseXor_def Let_def)
    then show ?thesis using True by simp
  next
    case False
    then have "sign x \<noteq> sign y \<longrightarrow>
        allocatable (max (length (digits x)) (length (digits y)) + 1)" by blast
    from bitwiseXor_spec [OF wx wy this] show ?thesis unfolding if_not_P [OF False] .
  qed
qed

theorem bitwise_twos_complement_witness:
  "wellformed \<lparr>sign = True, digits = [5]\<rparr> \<and> wellformed \<lparr>sign = False, digits = [3]\<rparr> \<and>
   (\<exists>r. bitwiseOr \<lparr>sign = True, digits = [5]\<rparr> \<lparr>sign = False, digits = [3]\<rparr> = Inr r \<and>
        val r = - 5) \<and>
   (\<exists>r. bitwiseAnd \<lparr>sign = True, digits = [5]\<rparr> \<lparr>sign = False, digits = [3]\<rparr> = Inr r \<and>
        val r = 3) \<and>
   (\<exists>r. bitwiseXor \<lparr>sign = True, digits = [5]\<rparr> \<lparr>sign = False, digits = [3]\<rparr> = Inr r \<and>
        val r = - 8)"
proof -
  have wa: "wellformed \<lparr>sign = True, digits = [5]\<rparr>"
    by (simp add: wellformed_def invariant_def allocatable_def kMaxLength_def)
  have wb: "wellformed \<lparr>sign = False, digits = [3]\<rparr>"
    by (simp add: wellformed_def invariant_def allocatable_def kMaxLength_def)
  have va: "val \<lparr>sign = True, digits = [5]\<rparr> = - 5" by (simp add: val_def)
  have vb: "val \<lparr>sign = False, digits = [3]\<rparr> = 3" by (simp add: val_def)
  have ops: "(- 5 :: int) OR 3 = - 5" "(- 5 :: int) AND 3 = 3" "(- 5 :: int) XOR 3 = - 8"
    by simp_all
  have al: "allocatable (Suc (Suc 0))" by (simp add: allocatable_def kMaxLength_def)
  note t = bitwise_twos_complement [OF wa wb, unfolded va vb ops]
  have a: "\<exists>r. bitwiseOr \<lparr>sign = True, digits = [5]\<rparr> \<lparr>sign = False, digits = [3]\<rparr> = Inr r \<and>
        val r = - 5" using t [THEN conjunct1] by blast
  have b: "\<exists>r. bitwiseAnd \<lparr>sign = True, digits = [5]\<rparr> \<lparr>sign = False, digits = [3]\<rparr> = Inr r \<and>
        val r = 3" using t [THEN conjunct2, THEN conjunct1] by simp blast
  have c: "\<exists>r. bitwiseXor \<lparr>sign = True, digits = [5]\<rparr> \<lparr>sign = False, digits = [3]\<rparr> = Inr r \<and>
        val r = - 8" using t [THEN conjunct2, THEN conjunct2] al by simp blast
  show ?thesis using wa wb a b c by (simp only: simp_thms)
qed

end
